theory Spec2Isabelle
  imports Main "HOL-Library.Sublist"
begin

section \<open>Data model of the network analyzer\<close>

text \<open>
  Go strings and byte slices are both sequences of bytes; a \<^typ>\<open>char\<close> is one byte.
\<close>

type_synonym bytes = string

definition host :: string where
  "host = ''geoip.maxmind.com''"

definition zipFileName :: string where
  "zipFileName = ''mm-network-analysis.zip''"

text \<open>The struct \<^verbatim>\<open>zipFile\<close>: one named blob destined for one archive entry.\<close>

record zipFile =
  name :: string
  contents :: bytes

subsection \<open>Errors of \<^verbatim>\<open>github.com/pkg/errors\<close>\<close>

text \<open>
  An error is either an error value handed out by the operating system or a library
  (\<open>Extern\<close>, carrying the text of its \<^verbatim>\<open>Error()\<close> method), or the result of
  \<^verbatim>\<open>errors.Wrap(cause, msg)\<close>: the cause, the message, and the rendering of the call
  stack that \<^verbatim>\<open>Wrap\<close> captured.
\<close>

datatype go_error = Extern string | Wrapped go_error string string

text \<open>\<^verbatim>\<open>Error()\<close>: a wrapped error reads \<^verbatim>\<open>msg: cause\<close>.\<close>

fun Error :: "go_error \<Rightarrow> string" where
  "Error (Extern s) = s"
| "Error (Wrapped c m st) = m @ '': '' @ Error c"

text \<open>
  The verb \<^verbatim>\<open>%+v\<close>: a foreign error prints its \<^verbatim>\<open>Error()\<close> text; a wrapped error
  prints its cause with \<^verbatim>\<open>%+v\<close>, a newline (the byte 0x0A), its own message, and then
  the stack.
\<close>

fun fmt_plus_v :: "go_error \<Rightarrow> string" where
  "fmt_plus_v (Extern s) = s"
| "fmt_plus_v (Wrapped c m st) = fmt_plus_v c @ [CHR 0x0A] @ m @ st"

text \<open>
  \<^verbatim>\<open>errors.Wrap\<close> returns nil for a nil error; every call of the program is under
  \<^verbatim>\<open>err != nil\<close>, so the model takes the error itself. The first argument stands for
  the stack the call captures.
\<close>

definition errors_Wrap :: "string \<Rightarrow> go_error \<Rightarrow> string \<Rightarrow> go_error" where
  "errors_Wrap stack err message = Wrapped err message stack"

subsection \<open>The world outside the program\<close>

datatype http_outcome = GetFailed go_error | ReadAllFailed go_error | Body bytes

text \<open>
  Everything the program asks of its surroundings is a field of \<open>env\<close>: the stack
  rendering at a source line, \<^verbatim>\<open>os.Args[0]\<close>, the files found on disk by path
  (\<open>None\<close> when absent), whether the operating system refuses an open, the result of
  running a command, of the GET, of reading a file, the failures of the zip writer (by
  the index of the entry: closing the entry, writing its header, writing its bytes), of
  writing the directory of the archive and of closing the file, and the byte encoding
  of an archive.
\<close>

record env =
  callers :: "nat \<Rightarrow> string"
  os_Args0 :: string
  disk :: "string \<Rightarrow> bytes option"
  open_err :: "go_error option"
  exec_CombinedOutput :: "string \<Rightarrow> string list \<Rightarrow> bytes \<times> go_error option"
  http_Get :: "string \<Rightarrow> http_outcome"
  ioutil_ReadFile :: "string \<Rightarrow> go_error + bytes"
  zip_entry_close_err :: "nat \<Rightarrow> go_error option"
  zip_writeHeader_err :: "nat \<Rightarrow> go_error option"
  zip_Write_err :: "nat \<Rightarrow> go_error option"
  zip_Close_err :: "go_error option"
  file_Close_err :: "go_error option"
  zip_encode :: "zipFile list \<Rightarrow> bytes"

subsection \<open>The archive file and the zip writer\<close>

datatype open_flag = O_WRONLY | O_CREATE | O_TRUNC

record os_File =
  fdata :: bytes
  fpos :: nat

text \<open>
  \<^verbatim>\<open>os.OpenFile\<close>: an absent file is created empty under \<open>O_CREATE\<close>; an existing file
  loses its bytes only under \<open>O_TRUNC\<close>; the offset starts at 0. The permission bits
  (octal 0600 is 384) matter to later opens only.
\<close>

definition os_OpenFile :: "env \<Rightarrow> string \<Rightarrow> open_flag list \<Rightarrow> nat \<Rightarrow> go_error + os_File" where
  "os_OpenFile e path flags perm =
     (case open_err e of
        Some err \<Rightarrow> Inl err
      | None \<Rightarrow>
          (case disk e path of
             None \<Rightarrow>
               if O_CREATE \<in> set flags then Inr \<lparr>fdata = [], fpos = 0\<rparr>
               else Inl (Extern ''no such file or directory'')
           | Some d \<Rightarrow>
               Inr \<lparr>fdata = (if O_TRUNC \<in> set flags then [] else d), fpos = 0\<rparr>))"

text \<open>Writing at the offset replaces the bytes there and leaves the bytes beyond.\<close>

definition file_Write :: "bytes \<Rightarrow> os_File \<Rightarrow> os_File" where
  "file_Write bs f =
     \<lparr>fdata = take (fpos f) (fdata f) @ bs @ drop (fpos f + length bs) (fdata f),
      fpos = fpos f + length bs\<rparr>"

text \<open>
  The zip writer holds its directory, the records of the entries created so far, each
  with the bytes written to it, and whether the entry created last is still open. It
  buffers: the bytes reach the file when the writer is closed.
\<close>

record zip_Writer =
  entries :: "zipFile list"
  last_open :: bool

definition zip_NewWriter :: zip_Writer where
  "zip_NewWriter = \<lparr>entries = [], last_open = False\<rparr>"

text \<open>Closing the entry that is still open, as \<^verbatim>\<open>Create\<close> and \<^verbatim>\<open>Close\<close> do first.\<close>

definition close_last_err :: "env \<Rightarrow> zip_Writer \<Rightarrow> go_error option" where
  "close_last_err e w =
     (if last_open w then zip_entry_close_err e (length (entries w) - 1) else None)"

text \<open>
  \<^verbatim>\<open>Create\<close> (that is \<^verbatim>\<open>CreateHeader\<close>): the entry still open is closed, and a failure
  of that is returned with the directory as it was; then the record of the new entry is
  appended to the directory; then its header is written, and a failure of that is
  returned with the record in the directory; otherwise the new entry is the open one.
\<close>

definition zip_Create :: "env \<Rightarrow> string \<Rightarrow> zip_Writer \<Rightarrow> go_error option \<times> zip_Writer" where
  "zip_Create e nm w =
     (case close_last_err e w of
        Some err \<Rightarrow> (Some err, w\<lparr>last_open := False\<rparr>)
      | None \<Rightarrow>
          (case zip_writeHeader_err e (length (entries w)) of
             Some err \<Rightarrow>
               (Some err,
                w\<lparr>entries := entries w @ [\<lparr>name = nm, contents = []\<rparr>], last_open := False\<rparr>)
           | None \<Rightarrow>
               (None,
                w\<lparr>entries := entries w @ [\<lparr>name = nm, contents = []\<rparr>], last_open := True\<rparr>)))"

text \<open>
  A write goes to the entry created last; a write that fails leaves the entry as it
  was.
\<close>

definition zip_Write :: "env \<Rightarrow> bytes \<Rightarrow> zip_Writer \<Rightarrow> go_error option \<times> zip_Writer" where
  "zip_Write e bs w =
     (case zip_Write_err e (length (entries w) - 1) of
        Some err \<Rightarrow> (Some err, w)
      | None \<Rightarrow>
          (None,
           w\<lparr>entries := butlast (entries w) @
                [(last (entries w))\<lparr>contents := contents (last (entries w)) @ bs\<rparr>]\<rparr>))"

subsection \<open>The analyzer\<close>

text \<open>
  The struct \<^verbatim>\<open>analyzer\<close>. Each of its two mutexes is locked and unlocked around one
  append, which makes \<^verbatim>\<open>storeFile\<close> and \<^verbatim>\<open>storeError\<close> atomic steps; the model has
  the steps and not the locks. (\<^verbatim>\<open>addErrors\<close> holds \<^verbatim>\<open>errorsMutex\<close> while it calls
  \<^verbatim>\<open>storeFile\<close>, which takes the other mutex, so it does not wait for itself.)
\<close>

record analyzer =
  zipWriter :: zip_Writer
  zipFile :: os_File
  errors :: "go_error list"
  zipFiles :: "zipFile list"

definition newAnalyzer :: "env \<Rightarrow> go_error + analyzer" where
  "newAnalyzer e =
     (case os_OpenFile e zipFileName [O_WRONLY, O_CREATE] 384 of
        Inl err \<Rightarrow> Inl (errors_Wrap (callers e 115) err (''error opening '' @ zipFileName))
      | Inr f \<Rightarrow>
          Inr \<lparr>zipWriter = zip_NewWriter, zipFile = f, errors = [], zipFiles = []\<rparr>)"

definition storeFile :: "string \<Rightarrow> bytes \<Rightarrow> analyzer \<Rightarrow> analyzer" where
  "storeFile nm cs a = a\<lparr>zipFiles := zipFiles a @ [\<lparr>name = nm, contents = cs\<rparr>]\<rparr>"

definition storeError :: "go_error \<Rightarrow> analyzer \<Rightarrow> analyzer" where
  "storeError err a = a\<lparr>errors := errors a @ [err]\<rparr>"


subsection \<open>Probes\<close>

text \<open>
  A probe is a closure without arguments and without result; all it does to the
  analyzer is a sequence of calls of \<^verbatim>\<open>storeError\<close> and \<^verbatim>\<open>storeFile\<close>. The model
  of a probe is that sequence, in the order of the calls, so that the calls of
  concurrent probes can interleave.
\<close>

datatype call = StoreError go_error | StoreFile string bytes

fun perform :: "call \<Rightarrow> analyzer \<Rightarrow> analyzer" where
  "perform (StoreError err) a = storeError err a"
| "perform (StoreFile nm cs) a = storeFile nm cs a"

type_synonym task = "call list"

text \<open>A probe running alone, from its first call to its last.\<close>

definition run_task :: "task \<Rightarrow> analyzer \<Rightarrow> analyzer" where
  "run_task t a = fold perform t a"

definition createStoreCommand :: "env \<Rightarrow> string \<Rightarrow> string \<Rightarrow> string list \<Rightarrow> task" where
  "createStoreCommand e f command args =
     (case exec_CombinedOutput e command args of
        (output, err) \<Rightarrow>
          (case err of
             Some er \<Rightarrow>
               [StoreError (errors_Wrap (callers e 168) er (''error getting data for '' @ f))]
           | None \<Rightarrow> [])
          @ [StoreFile f output])"

definition addIP :: "env \<Rightarrow> task" where
  "addIP e =
     (case http_Get e (''http://'' @ host @ ''/app/update_getipaddr'') of
        GetFailed err \<Rightarrow>
          [StoreError (errors_Wrap (callers e 177) err ''error getting IP address'')]
      | ReadAllFailed err \<Rightarrow>
          [StoreError (errors_Wrap (callers e 183) err ''error reading IP address body'')]
      | Body body \<Rightarrow> [StoreFile ''ip-address.txt'' body])"

definition addResolvConf :: "env \<Rightarrow> task" where
  "addResolvConf e =
     (case ioutil_ReadFile e ''/etc/resolv.conf'' of
        Inl err \<Rightarrow> [StoreError (errors_Wrap (callers e 194) err ''error reading resolv.conf'')]
      | Inr cs \<Rightarrow> [StoreFile ''resolv.conf'' cs])"

subsection \<open>The error report\<close>

text \<open>
  \<^verbatim>\<open>fmt.Fprintf\<close> into a \<^verbatim>\<open>bytes.Buffer\<close>: the buffer grows by the formatted text; the
  error a \<^verbatim>\<open>bytes.Buffer\<close> returns from a write is always nil.
\<close>

text \<open>
  The format of \<^verbatim>\<open>addErrors\<close> is the verb \<^verbatim>\<open>%+v\<close> followed by two newlines, ten
  hyphens and two newlines: what follows the error is the delimiter.
\<close>

definition delimiter :: string where
  "delimiter = [CHR 0x0A, CHR 0x0A] @ ''----------'' @ [CHR 0x0A, CHR 0x0A]"

definition buffer_Fprintf :: "bytes \<Rightarrow> go_error \<Rightarrow> go_error + bytes" where
  "buffer_Fprintf buf storedErr = Inr (buf @ fmt_plus_v storedErr @ delimiter)"

fun addErrors_loop :: "env \<Rightarrow> bytes \<Rightarrow> go_error list \<Rightarrow> go_error + bytes" where
  "addErrors_loop e buf [] = Inr buf"
| "addErrors_loop e buf (storedErr # rest) =
     (case buffer_Fprintf buf storedErr of
        Inl err \<Rightarrow> Inl (errors_Wrap (callers e 211) err ''error writing errors.txt buffer'')
      | Inr buf' \<Rightarrow> addErrors_loop e buf' rest)"

definition addErrors :: "env \<Rightarrow> analyzer \<Rightarrow> go_error option \<times> analyzer" where
  "addErrors e a =
     (if length (errors a) = 0 then (None, a)
      else
        (case addErrors_loop e [] (errors a) of
           Inl err \<Rightarrow> (Some err, a)
         | Inr buf \<Rightarrow> (None, storeFile ''errors.txt'' buf a)))"

subsection \<open>Writing the archive\<close>

definition writeFile :: "env \<Rightarrow> zipFile \<Rightarrow> analyzer \<Rightarrow> go_error option \<times> analyzer" where
  "writeFile e zf a =
     (case zip_Create e (name zf) (zipWriter a) of
        (Some err, w) \<Rightarrow>
          (Some (errors_Wrap (callers e 151) err (''error creating '' @ name zf @ '' in zip file'')),
           a\<lparr>zipWriter := w\<rparr>)
      | (None, w) \<Rightarrow>
          (case zip_Write e (contents zf) w of
             (Some err, w') \<Rightarrow>
               (Some (errors_Wrap (callers e 155) err
                  (''error writing '' @ name zf @ '' to zip file'')),
                a\<lparr>zipWriter := w'\<rparr>)
           | (None, w') \<Rightarrow> (None, a\<lparr>zipWriter := w'\<rparr>)))"

fun writeFiles_loop :: "env \<Rightarrow> zipFile list \<Rightarrow> analyzer \<Rightarrow> go_error option \<times> analyzer" where
  "writeFiles_loop e [] a = (None, a)"
| "writeFiles_loop e (zf # rest) a =
     (case writeFile e zf a of
        (Some err, a') \<Rightarrow> (Some err, a')
      | (None, a') \<Rightarrow> writeFiles_loop e rest a')"

definition writeFiles :: "env \<Rightarrow> analyzer \<Rightarrow> go_error option \<times> analyzer" where
  "writeFiles e a = writeFiles_loop e (zipFiles a) a"

text \<open>
  \<^verbatim>\<open>Close\<close> of the zip writer: the entry still open is closed, the directory is
  written, and the encoded archive is flushed to the file, at the file's offset. A
  failure on the way is returned (the model then leaves the file as it was).
\<close>

definition zip_Close :: "env \<Rightarrow> zip_Writer \<Rightarrow> os_File \<Rightarrow> go_error + os_File" where
  "zip_Close e w f =
     (case close_last_err e w of
        Some err \<Rightarrow> Inl err
      | None \<Rightarrow>
          (case zip_Close_err e of
             Some err \<Rightarrow> Inl err
           | None \<Rightarrow> Inr (file_Write (zip_encode e (entries w)) f)))"

definition close :: "env \<Rightarrow> analyzer \<Rightarrow> go_error option \<times> analyzer" where
  "close e a =
     (case zip_Close e (zipWriter a) (zipFile a) of
        Inl err \<Rightarrow> (Some (errors_Wrap (callers e 127) err ''error closing zip file writer''), a)
      | Inr f \<Rightarrow>
          (case file_Close_err e of
             Some err \<Rightarrow>
               (Some (errors_Wrap (callers e 131) err ''error closing zip file''),
                a\<lparr>zipFile := f\<rparr>)
           | None \<Rightarrow> (None, a\<lparr>zipFile := f\<rparr>)))"


section \<open>The program \<^verbatim>\<open>main\<close>\<close>

text \<open>The configured probes, in the order of the slice \<^verbatim>\<open>tasks\<close>.\<close>

definition tasks :: "env \<Rightarrow> task list" where
  "tasks e =
     [createStoreCommand e (host @ ''-curl-ipv4.txt'') ''curl''
        [''-4'', ''--trace-time'', ''--trace-ascii'', ''-'', ''--user-agent'', os_Args0 e, host],
      createStoreCommand e (host @ ''-curl-ipv6.txt'') ''curl''
        [''-6'', ''--trace-time'', ''--trace-ascii'', ''-'', ''--user-agent'', os_Args0 e, host],
      createStoreCommand e (host @ ''-dig.txt'') ''dig''
        [''-4'', ''+all'', host, ''A'', host, ''AAAA''],
      createStoreCommand e (host @ ''-dig-google.txt'') ''dig''
        [''-4'', ''+all'', ''@8.8.8.8'', host, ''A'', host, ''AAAA''],
      createStoreCommand e (host @ ''-dig-google-trace.txt'') ''dig''
        [''-4'', ''+all'', ''+trace'', ''@8.8.8.8'', host, ''A'', host, ''AAAA''],
      createStoreCommand e (host @ ''-dig-cloudflare-josh.txt'') ''dig''
        [''-4'', host, ''@josh.ns.cloudflare.com'', ''+nsid''],
      createStoreCommand e (host @ ''-dig-cloudflare-kim.txt'') ''dig''
        [''-4'', host, ''@kim.ns.cloudflare.com'', ''+nsid''],
      createStoreCommand e (host @ ''-dig-cloudflare-josh-rfc4892.txt'') ''dig''
        [''-4'', ''CH'', ''TXT'', ''id.server'', host, ''@josh.ns.cloudflare.com'', ''+nsid''],
      createStoreCommand e (host @ ''-dig-cloudflare-kim-rfc4892.txt'') ''dig''
        [''-4'', ''CH'', ''TXT'', ''id.server'', host, ''@kim.ns.cloudflare.com'', ''+nsid''],
      createStoreCommand e (host @ ''-dig-cloudflare.txt'') ''dig''
        [''-4'', ''@1.1.1.1'', ''CH'', ''TXT'', ''hostname.cloudflare'', ''+short''],
      createStoreCommand e ''ip-addr.txt'' ''ip'' [''addr''],
      createStoreCommand e ''ip-route.txt'' ''ip'' [''route''],
      createStoreCommand e (host @ ''-mtr-ipv4.json'') ''mtr'' [''-j'', ''-4'', host],
      createStoreCommand e (host @ ''-mtr-ipv6.json'') ''mtr'' [''-j'', ''-6'', host],
      createStoreCommand e (host @ ''-ping-ipv4.txt'') ''ping'' [''-4'', ''-c'', ''30'', host],
      createStoreCommand e (host @ ''-ping-ipv6.txt'') ''ping'' [''-6'', ''-c'', ''30'', host],
      createStoreCommand e (host @ ''-tracepath.txt'') ''tracepath'' [host],
      addIP e,
      addResolvConf e]"

text \<open>
  The main goroutine is at one of these places: before \<^verbatim>\<open>wg.Add(1)\<close> of the
  iteration for task \<open>i\<close>, before the \<^verbatim>\<open>go\<close> statement of that iteration, blocked in
  \<^verbatim>\<open>wg.Wait()\<close>, past \<^verbatim>\<open>wg.Wait()\<close>, returned from \<^verbatim>\<open>main\<close>; or the process has
  died of a panic.
\<close>

datatype pc = Loop nat | Go nat | Wait | AfterWait | Exited | Crashed

text \<open>
  A goroutine \<^verbatim>\<open>func(task) { task(); wg.Done() }\<close> is inside \<^verbatim>\<open>task()\<close> with the
  calls it still has to make (none left: before \<^verbatim>\<open>wg.Done()\<close>), or has finished.
\<close>

datatype goroutine = Running "call list" | Finished

text \<open>
  The state of the process: the main goroutine's place, the counter of the wait group,
  the goroutines started so far (the \<open>j\<close>-th runs the \<open>j\<close>-th task), the pointer
  \<^verbatim>\<open>a\<close> (\<open>None\<close> is nil), the lines logged, and, as a history, the calls made so far
  with the goroutine that made each.
\<close>

record sys =
  pc :: pc
  wg :: int
  goroutines :: "goroutine list"
  store :: "analyzer option"
  logged :: "go_error list"
  trace :: "(nat \<times> call) list"

definition log_Println :: "go_error option \<Rightarrow> go_error list" where
  "log_Println err = (case err of None \<Rightarrow> [] | Some er \<Rightarrow> [er])"

text \<open>\<^verbatim>\<open>main\<close> up to the loop: the analyzer is made, a failure is logged and not more.\<close>

definition main_init :: "env \<Rightarrow> sys" where
  "main_init e =
     (case newAnalyzer e of
        Inl err \<Rightarrow>
          \<lparr>pc = Loop 0, wg = 0, goroutines = [], store = None, logged = [err], trace = []\<rparr>
      | Inr a \<Rightarrow>
          \<lparr>pc = Loop 0, wg = 0, goroutines = [], store = Some a, logged = [], trace = []\<rparr>)"

text \<open>\<^verbatim>\<open>main\<close> after \<^verbatim>\<open>wg.Wait()\<close>: the three calls in sequence, each error logged.\<close>

definition main_tail :: "env \<Rightarrow> analyzer \<Rightarrow> go_error list \<Rightarrow> analyzer \<times> go_error list" where
  "main_tail e a lg =
     (case addErrors e a of
        (err1, a1) \<Rightarrow>
          (case writeFiles e a1 of
             (err2, a2) \<Rightarrow>
               (case close e a2 of
                  (err3, a3) \<Rightarrow>
                    (a3, lg @ log_Println err1 @ log_Println err2 @ log_Println err3))))"

text \<open>
  One step of the process. A method called through the nil pointer panics at its first
  field access, and a panic in any goroutine ends the process; \<^verbatim>\<open>wg.Done()\<close> panics on a
  counter that would become negative; \<^verbatim>\<open>wg.Wait()\<close> returns only at counter 0; when
  \<^verbatim>\<open>main\<close> has returned nothing runs any more.
\<close>

inductive main_step :: "env \<Rightarrow> sys \<Rightarrow> sys \<Rightarrow> bool" for e :: env where
  step_Add:
    "pc s = Loop i \<Longrightarrow> i < length (tasks e) \<Longrightarrow>
     main_step e s (s\<lparr>pc := Go i, wg := wg s + 1\<rparr>)"
| step_go:
    "pc s = Go i \<Longrightarrow>
     main_step e s (s\<lparr>pc := Loop (Suc i), goroutines := goroutines s @ [Running (tasks e ! i)]\<rparr>)"
| step_range_end:
    "pc s = Loop i \<Longrightarrow> \<not> i < length (tasks e) \<Longrightarrow>
     main_step e s (s\<lparr>pc := Wait\<rparr>)"
| step_call:
    "pc s \<noteq> Exited \<Longrightarrow> pc s \<noteq> Crashed \<Longrightarrow> j < length (goroutines s) \<Longrightarrow>
     goroutines s ! j = Running (c # r) \<Longrightarrow> store s = Some a \<Longrightarrow>
     main_step e s
       (s\<lparr>goroutines := (goroutines s)[j := Running r], store := Some (perform c a),
          trace := trace s @ [(j, c)]\<rparr>)"
| step_call_nil:
    "pc s \<noteq> Exited \<Longrightarrow> pc s \<noteq> Crashed \<Longrightarrow> j < length (goroutines s) \<Longrightarrow>
     goroutines s ! j = Running (c # r) \<Longrightarrow> store s = None \<Longrightarrow>
     main_step e s (s\<lparr>pc := Crashed\<rparr>)"
| step_Done:
    "pc s \<noteq> Exited \<Longrightarrow> pc s \<noteq> Crashed \<Longrightarrow> j < length (goroutines s) \<Longrightarrow>
     goroutines s ! j = Running [] \<Longrightarrow> 0 \<le> wg s - 1 \<Longrightarrow>
     main_step e s (s\<lparr>wg := wg s - 1, goroutines := (goroutines s)[j := Finished]\<rparr>)"
| step_Done_negative:
    "pc s \<noteq> Exited \<Longrightarrow> pc s \<noteq> Crashed \<Longrightarrow> j < length (goroutines s) \<Longrightarrow>
     goroutines s ! j = Running [] \<Longrightarrow> wg s - 1 < 0 \<Longrightarrow>
     main_step e s (s\<lparr>pc := Crashed\<rparr>)"
| step_Wait:
    "pc s = Wait \<Longrightarrow> wg s = 0 \<Longrightarrow> main_step e s (s\<lparr>pc := AfterWait\<rparr>)"
| step_tail:
    "pc s = AfterWait \<Longrightarrow> store s = Some a \<Longrightarrow> main_tail e a (logged s) = (a', lg) \<Longrightarrow>
     main_step e s (s\<lparr>pc := Exited, store := Some a', logged := lg\<rparr>)"
| step_tail_nil:
    "pc s = AfterWait \<Longrightarrow> store s = None \<Longrightarrow> main_step e s (s\<lparr>pc := Crashed\<rparr>)"

code_pred main_step .

text \<open>The states the process can be in.\<close>

definition reachable :: "env \<Rightarrow> sys \<Rightarrow> bool" where
  "reachable e s = (main_step e)\<^sup>*\<^sup>* (main_init e) s"

text \<open>The calls that goroutine \<open>j\<close> has made, in order.\<close>

definition calls_of :: "nat \<Rightarrow> (nat \<times> call) list \<Rightarrow> call list" where
  "calls_of j tr = map snd (filter (\<lambda>p. fst p = j) tr)"


subsection \<open>Invariants of the process\<close>

definition unfinished :: "goroutine list \<Rightarrow> nat" where
  "unfinished gs = length (filter (\<lambda>g. g \<noteq> Finished) gs)"

fun remaining :: "goroutine \<Rightarrow> call list" where
  "remaining (Running r) = r"
| "remaining Finished = []"

text \<open>
  The counter of the wait group is the number of goroutines that have not finished (one
  more between \<^verbatim>\<open>wg.Add(1)\<close> and \<^verbatim>\<open>go\<close>), and goroutine \<open>j\<close> is somewhere inside
  task \<open>j\<close>: what it has called and what it has yet to call make up the task.
\<close>

definition barrier_inv :: "env \<Rightarrow> sys \<Rightarrow> bool" where
  "barrier_inv e s =
     ((case pc s of
         Loop i \<Rightarrow> length (goroutines s) = i \<and> wg s = int (unfinished (goroutines s))
       | Go i \<Rightarrow>
           i < length (tasks e) \<and> length (goroutines s) = i \<and>
           wg s = int (unfinished (goroutines s)) + 1
       | Wait \<Rightarrow>
           length (goroutines s) = length (tasks e) \<and> wg s = int (unfinished (goroutines s))
       | AfterWait \<Rightarrow>
           length (goroutines s) = length (tasks e) \<and> wg s = 0 \<and> unfinished (goroutines s) = 0
       | Exited \<Rightarrow>
           length (goroutines s) = length (tasks e) \<and> wg s = 0 \<and> unfinished (goroutines s) = 0
       | Crashed \<Rightarrow> True) \<and>
      length (goroutines s) \<le> length (tasks e) \<and>
      (\<forall>p \<in> set (trace s). fst p < length (goroutines s)) \<and>
      (\<forall>j < length (goroutines s).
         calls_of j (trace s) @ remaining (goroutines s ! j) = tasks e ! j))"

text \<open>The analyzer as the calls of the history leave it.\<close>

definition at_barrier :: "analyzer \<Rightarrow> (nat \<times> call) list \<Rightarrow> analyzer" where
  "at_barrier a0 tr = fold perform (map snd tr) a0"

text \<open>
  The pointer never changes: nil stays nil and no call is ever made through it; a
  valid analyzer is the fresh one after the calls of the history, and after
  \<^verbatim>\<open>main\<close> has returned it is what the three closing calls made of that.
\<close>

definition store_inv :: "env \<Rightarrow> sys \<Rightarrow> bool" where
  "store_inv e s =
     (case newAnalyzer e of
        Inl err \<Rightarrow> store s = None \<and> trace s = [] \<and> logged s = [err] \<and> pc s \<noteq> Exited
      | Inr a0 \<Rightarrow>
          (if pc s = Exited
           then store s = Some (fst (main_tail e (at_barrier a0 (trace s)) [])) \<and>
                logged s = snd (main_tail e (at_barrier a0 (trace s)) [])
           else store s = Some (at_barrier a0 (trace s)) \<and> logged s = []))"

fun files_of :: "call list \<Rightarrow> zipFile list" where
  "files_of [] = []"
| "files_of (StoreFile nm cs # r) = \<lparr>name = nm, contents = cs\<rparr> # files_of r"
| "files_of (StoreError err # r) = files_of r"

fun errors_of :: "call list \<Rightarrow> go_error list" where
  "errors_of [] = []"
| "errors_of (StoreFile nm cs # r) = errors_of r"
| "errors_of (StoreError err # r) = err # errors_of r"

text \<open>All the message texts of an error: its own and those down its chain of causes.\<close>

fun messages :: "go_error \<Rightarrow> string list" where
  "messages (Extern s) = [s]"
| "messages (Wrapped c m st) = m # messages c"

text \<open>
  The failures that meet the \<open>i\<close>-th record which \<^verbatim>\<open>writeFiles\<close> hands to a zip writer
  found as \<open>w\<close>: closing the entry before it (for the first record: the entry that \<open>w\<close>
  has open, if any), writing its header, writing its bytes.
\<close>

definition close_prev_err :: "env \<Rightarrow> zip_Writer \<Rightarrow> nat \<Rightarrow> go_error option" where
  "close_prev_err e w i =
     (if i = 0 then close_last_err e w
      else zip_entry_close_err e (length (entries w) + i - 1))"

definition entry_ok :: "env \<Rightarrow> zip_Writer \<Rightarrow> nat \<Rightarrow> bool" where
  "entry_ok e w i =
     (close_prev_err e w i = None \<and>
      zip_writeHeader_err e (length (entries w) + i) = None \<and>
      zip_Write_err e (length (entries w) + i) = None)"

text \<open>The analyzer after further entries went into its zip writer without failure.\<close>

definition add_entries :: "zipFile list \<Rightarrow> analyzer \<Rightarrow> analyzer" where
  "add_entries zfs a =
     a\<lparr>zipWriter :=
         (zipWriter a)\<lparr>entries := entries (zipWriter a) @ zfs,
                       last_open := (zfs \<noteq> [] \<or> last_open (zipWriter a))\<rparr>\<rparr>"

subsection \<open>Example values\<close>

text \<open>
  A world in which the archive file is absent and can be opened, \<^verbatim>\<open>ping\<close> fails after
  printing a line, every other command prints its own name, the GET succeeds,
  \<^verbatim>\<open>/etc/resolv.conf\<close> is missing and the archive is written without failure. The
  encoding of an archive is kept simple: names and contents in sequence.
\<close>

definition example_env :: env where
  "example_env =
     \<lparr>callers = (\<lambda>line. []),
      os_Args0 = ''mm-network-analyzer'',
      disk = (\<lambda>path. None),
      open_err = None,
      exec_CombinedOutput =
        (\<lambda>command args.
           if command = ''ping''
           then (''ping: connect: Network is unreachable'', Some (Extern ''exit status 2''))
           else (command, None)),
      http_Get = (\<lambda>url. Body ''192.0.2.7''),
      ioutil_ReadFile =
        (\<lambda>path. Inl (Extern ''open /etc/resolv.conf: no such file or directory'')),
      zip_entry_close_err = (\<lambda>k. None),
      zip_writeHeader_err = (\<lambda>k. None),
      zip_Write_err = (\<lambda>k. None),
      zip_Close_err = None,
      file_Close_err = None,
      zip_encode = (\<lambda>zs. concat (map (\<lambda>z. name z @ contents z) zs))\<rparr>"

text \<open>An analyzer holding two outputs and two errors, nothing archived yet.\<close>

definition example_analyzer :: analyzer where
  "example_analyzer =
     \<lparr>zipWriter = zip_NewWriter,
      zipFile = \<lparr>fdata = [], fpos = 0\<rparr>,
      errors =
        [Wrapped (Extern ''exit status 2'') ''error getting data for ip-addr.txt'' [],
         Wrapped (Extern ''open /etc/resolv.conf: no such file or directory'')
           ''error reading resolv.conf'' []],
      zipFiles =
        [\<lparr>name = ''ip-addr.txt'', contents = ''1: lo: LOOPBACK''\<rparr>,
         \<lparr>name = ''ip-address.txt'', contents = ''192.0.2.7''\<rparr>]\<rparr>"

section \<open>Properties\<close>

subsection \<open>The invariants hold\<close>

lemma unfinished_append: "unfinished (gs @ [g]) = unfinished gs + (if g = Finished then 0 else 1)"
  by (simp add: unfinished_def)

lemma unfinished_Nil: "unfinished [] = 0"
  by (simp add: unfinished_def)

lemma unfinished_update_Running:
  "j < length gs \<Longrightarrow> gs ! j \<noteq> Finished \<Longrightarrow> unfinished (gs[j := Running r]) = unfinished gs"
proof (induction gs arbitrary: j)
  case Nil
  then show ?case by simp
next
  case (Cons g gs)
  then show ?case by (cases j) (auto simp: unfinished_def)
qed

lemma unfinished_update_Finished:
  "j < length gs \<Longrightarrow> gs ! j \<noteq> Finished \<Longrightarrow> Suc (unfinished (gs[j := Finished])) = unfinished gs"
proof (induction gs arbitrary: j)
  case Nil
  then show ?case by simp
next
  case (Cons g gs)
  then show ?case by (cases j) (auto simp: unfinished_def)
qed

lemma unfinished_0: "unfinished gs = 0 \<Longrightarrow> j < length gs \<Longrightarrow> gs ! j = Finished"
  by (auto simp: unfinished_def filter_empty_conv)

lemma calls_of_snoc:
  "calls_of j (tr @ [(i, c)]) = calls_of j tr @ (if i = j then [c] else [])"
  by (simp add: calls_of_def)

lemma calls_of_fresh: "\<forall>p \<in> set tr. fst p < n \<Longrightarrow> n \<le> j \<Longrightarrow> calls_of j tr = []"
  by (auto simp: calls_of_def filter_empty_conv)

lemma barrier_inv_init: "barrier_inv e (main_init e)"
  by (simp add: barrier_inv_def main_init_def unfinished_def split: sum.splits)

lemma barrier_inv_step:
  assumes "main_step e s s'" and "barrier_inv e s"
  shows "barrier_inv e s'"
  using assms
proof (induction rule: main_step.induct)
  case (step_Add s i)
  then show ?case by (auto simp: barrier_inv_def)
next
  case (step_go s i)
  then show ?case
    by (auto simp: barrier_inv_def unfinished_append nth_append calls_of_fresh less_Suc_eq)
next
  case (step_range_end s i)
  then show ?case by (auto simp: barrier_inv_def)
next
  case (step_call s j c r a)
  have u: "unfinished ((goroutines s)[j := Running r]) = unfinished (goroutines s)"
    using step_call by (simp add: unfinished_update_Running)
  have t: "\<forall>k < length (goroutines s).
             calls_of k (trace s @ [(j, c)]) @ remaining ((goroutines s)[j := Running r] ! k)
             = tasks e ! k"
  proof (intro allI impI)
    fix k assume k: "k < length (goroutines s)"
    with step_call have old: "calls_of k (trace s) @ remaining (goroutines s ! k) = tasks e ! k"
      by (simp add: barrier_inv_def)
    show "calls_of k (trace s @ [(j, c)]) @ remaining ((goroutines s)[j := Running r] ! k)
             = tasks e ! k"
    proof (cases "k = j")
      case True
      with old step_call show ?thesis by (simp add: calls_of_snoc)
    next
      case False
      with old k show ?thesis by (simp add: calls_of_snoc)
    qed
  qed
  from step_call u t show ?case
    by (auto simp: barrier_inv_def split: pc.splits)
next
  case (step_call_nil s j c r)
  then show ?case by (auto simp: barrier_inv_def)
next
  case (step_Done s j)
  have u: "Suc (unfinished ((goroutines s)[j := Finished])) = unfinished (goroutines s)"
    using step_Done by (simp add: unfinished_update_Finished)
  have t: "\<forall>k < length (goroutines s).
             calls_of k (trace s) @ remaining ((goroutines s)[j := Finished] ! k) = tasks e ! k"
  proof (intro allI impI)
    fix k assume k: "k < length (goroutines s)"
    with step_Done have old: "calls_of k (trace s) @ remaining (goroutines s ! k) = tasks e ! k"
      by (simp add: barrier_inv_def)
    show "calls_of k (trace s) @ remaining ((goroutines s)[j := Finished] ! k) = tasks e ! k"
    proof (cases "k = j")
      case True
      with old step_Done show ?thesis by simp
    next
      case False
      with old k show ?thesis by simp
    qed
  qed
  from step_Done t show ?case
    using u by (auto simp: barrier_inv_def split: pc.splits)
next
  case (step_Done_negative s j)
  then show ?case by (auto simp: barrier_inv_def)
next
  case (step_Wait s)
  then show ?case by (auto simp: barrier_inv_def)
next
  case (step_tail s a a' lg)
  then show ?case by (auto simp: barrier_inv_def)
next
  case (step_tail_nil s)
  then show ?case by (auto simp: barrier_inv_def)
qed

lemma fold_perform_snoc: "fold perform (cs @ [c]) a = perform c (fold perform cs a)"
  by simp

lemma store_inv_init: "store_inv e (main_init e)"
  by (simp add: store_inv_def main_init_def at_barrier_def split: sum.splits)

lemma store_inv_step:
  assumes "main_step e s s'" and "store_inv e s"
  shows "store_inv e s'"
  using assms
proof (induction rule: main_step.induct)
  case (step_tail s a a' lg)
  then show ?case
    by (auto simp: store_inv_def main_tail_def log_Println_def split: sum.splits prod.splits option.splits)
qed (auto simp: store_inv_def at_barrier_def split: sum.splits if_splits)

lemma reachable_inv:
  assumes "reachable e s"
  shows "barrier_inv e s \<and> store_inv e s"
  using assms unfolding reachable_def
  by (induction rule: rtranclp_induct)
     (auto simp: barrier_inv_init store_inv_init intro: barrier_inv_step store_inv_step)


subsection \<open>A run exists\<close>

lemma step_reachable: "reachable e s \<Longrightarrow> main_step e s s' \<Longrightarrow> reachable e s'"
  unfolding reachable_def by (rule rtranclp.rtrancl_into_rtrancl)

lemma steps_reachable: "reachable e s \<Longrightarrow> (main_step e)\<^sup>*\<^sup>* s s' \<Longrightarrow> reachable e s'"
  unfolding reachable_def by (rule rtranclp_trans)

lemma run_calls:
  assumes "pc s \<noteq> Exited" and "pc s \<noteq> Crashed" and "j < length (goroutines s)"
    and "goroutines s ! j = Running r" and "store s = Some a"
  shows "(main_step e)\<^sup>*\<^sup>* s
           (s\<lparr>goroutines := (goroutines s)[j := Running []], store := Some (fold perform r a),
              trace := trace s @ map (Pair j) r\<rparr>)"
  using assms
proof (induction r arbitrary: s a)
  case Nil
  then have "(goroutines s)[j := Running []] = goroutines s"
    by (metis list_update_id)
  moreover have "s\<lparr>store := Some a\<rparr> = s"
    using Nil by simp
  ultimately show ?case by simp
next
  case (Cons c r)
  let ?s1 = "s\<lparr>goroutines := (goroutines s)[j := Running r], store := Some (perform c a),
               trace := trace s @ [(j, c)]\<rparr>"
  have 1: "main_step e s ?s1"
    using Cons.prems by (intro main_step.step_call) auto
  have 2: "(main_step e)\<^sup>*\<^sup>* ?s1
             (?s1\<lparr>goroutines := (goroutines ?s1)[j := Running []],
                  store := Some (fold perform r (perform c a)),
                  trace := trace ?s1 @ map (Pair j) r\<rparr>)"
    using Cons.prems by (intro Cons.IH) auto
  have "(main_step e)\<^sup>*\<^sup>* s
          (?s1\<lparr>goroutines := (goroutines ?s1)[j := Running []],
               store := Some (fold perform r (perform c a)),
               trace := trace ?s1 @ map (Pair j) r\<rparr>)"
    using 1 2 by (rule converse_rtranclp_into_rtranclp)
  then show ?case by simp
qed

lemma run_one_task:
  assumes r: "reachable e s" and pc: "pc s = Loop k" and k: "k < length (tasks e)"
    and w: "wg s = 0" and a: "store s = Some a"
  shows "\<exists>s'. reachable e s' \<and> pc s' = Loop (Suc k) \<and> wg s' = 0"
proof -
  have len: "length (goroutines s) = k"
    using reachable_inv [OF r] pc by (simp add: barrier_inv_def)
  let ?s1 = "s\<lparr>pc := Go k, wg := wg s + 1\<rparr>"
  let ?s2 = "?s1\<lparr>pc := Loop (Suc k), goroutines := goroutines ?s1 @ [Running (tasks e ! k)]\<rparr>"
  let ?s3 = "?s2\<lparr>goroutines := (goroutines ?s2)[k := Running []],
                store := Some (fold perform (tasks e ! k) a),
                trace := trace ?s2 @ map (Pair k) (tasks e ! k)\<rparr>"
  let ?s4 = "?s3\<lparr>wg := wg ?s3 - 1, goroutines := (goroutines ?s3)[k := Finished]\<rparr>"
  have 1: "main_step e s ?s1" using pc k by (rule main_step.step_Add)
  have 2: "main_step e ?s1 ?s2" by (rule main_step.step_go) simp
  have 3: "(main_step e)\<^sup>*\<^sup>* ?s2 ?s3"
    using len a by (intro run_calls) (auto simp: nth_append)
  have 4: "main_step e ?s3 ?s4"
    using len w by (intro main_step.step_Done) auto
  have "reachable e ?s4"
    using r 1 2 3 4 by (meson step_reachable steps_reachable)
  moreover have "pc ?s4 = Loop (Suc k)" by simp
  moreover have "wg ?s4 = 0" using w by simp
  ultimately show ?thesis by blast
qed

lemma reachable_init: "reachable e (main_init e)"
  by (simp add: reachable_def)

lemma reachable_Loop:
  assumes "newAnalyzer e = Inr a0" and "k \<le> length (tasks e)"
  shows "\<exists>s. reachable e s \<and> pc s = Loop k \<and> wg s = 0"
  using assms(2)
proof (induction k)
  case 0
  have "pc (main_init e) = Loop 0 \<and> wg (main_init e) = 0"
    using assms(1) by (simp add: main_init_def)
  then show ?case using reachable_init by blast
next
  case (Suc k)
  then obtain s where s: "reachable e s" "pc s = Loop k" "wg s = 0" by auto
  have "store s = Some (at_barrier a0 (trace s))"
    using reachable_inv [OF s(1)] assms(1) s(2) by (simp add: store_inv_def)
  with s Suc.prems show ?case by (intro run_one_task [of e s k]) auto
qed

lemma reachable_AfterWait:
  assumes "newAnalyzer e = Inr a0"
  shows "\<exists>s. reachable e s \<and> pc s = AfterWait"
proof -
  obtain s where s: "reachable e s" "pc s = Loop (length (tasks e))" "wg s = 0"
    using reachable_Loop [OF assms, of "length (tasks e)"] by auto
  have 1: "main_step e s (s\<lparr>pc := Wait\<rparr>)"
    using s(2) by (rule main_step.step_range_end) simp
  have 2: "main_step e (s\<lparr>pc := Wait\<rparr>) (s\<lparr>pc := Wait\<rparr>\<lparr>pc := AfterWait\<rparr>)"
    using s(3) by (intro main_step.step_Wait) auto
  have "reachable e (s\<lparr>pc := Wait\<rparr>\<lparr>pc := AfterWait\<rparr>)"
    using s(1) 1 2 by (meson step_reachable)
  then show ?thesis by (intro exI [of _ "s\<lparr>pc := Wait\<rparr>\<lparr>pc := AfterWait\<rparr>"]) simp
qed

lemma reachable_Exited:
  assumes "newAnalyzer e = Inr a0"
  shows "\<exists>s. reachable e s \<and> pc s = Exited"
proof -
  obtain s where s: "reachable e s" "pc s = AfterWait"
    using reachable_AfterWait [OF assms] by auto
  have st: "store s = Some (at_barrier a0 (trace s))"
    using reachable_inv [OF s(1)] assms s(2) by (simp add: store_inv_def)
  obtain a' lg where t: "main_tail e (at_barrier a0 (trace s)) (logged s) = (a', lg)"
    by (cases "main_tail e (at_barrier a0 (trace s)) (logged s)")
  have "main_step e s (s\<lparr>pc := Exited, store := Some a', logged := lg\<rparr>)"
    using s(2) st t by (rule main_step.step_tail)
  then have "reachable e (s\<lparr>pc := Exited, store := Some a', logged := lg\<rparr>)"
    using s(1) by (meson step_reachable)
  then show ?thesis by (intro exI [of _ "s\<lparr>pc := Exited, store := Some a', logged := lg\<rparr>"]) simp
qed


subsection \<open>Probes and the error report\<close>

lemma zipFiles_fold_perform: "zipFiles (fold perform cs a) = zipFiles a @ files_of cs"
  by (induction cs arbitrary: a rule: files_of.induct) (simp_all add: storeFile_def storeError_def)

lemma errors_fold_perform: "errors (fold perform cs a) = errors a @ errors_of cs"
  by (induction cs arbitrary: a rule: errors_of.induct) (simp_all add: storeFile_def storeError_def)

lemma zipWriter_fold_perform: "zipWriter (fold perform cs a) = zipWriter a"
  by (induction cs arbitrary: a rule: files_of.induct) (simp_all add: storeFile_def storeError_def)

lemma zipFile_fold_perform: "zipFile (fold perform cs a) = zipFile a"
  by (induction cs arbitrary: a rule: files_of.induct) (simp_all add: storeFile_def storeError_def)

text \<open>
  C3: a command probe always stores exactly one output record, under the configured
  name and holding the captured combined output, whatever the outcome of the command;
  it stores one error record, wrapping the execution error, exactly when the command
  fails, and none otherwise.
\<close>

theorem createStoreCommand_always_stores_output:
  "zipFiles (run_task (createStoreCommand e f command args) a) =
     zipFiles a @ [\<lparr>name = f, contents = fst (exec_CombinedOutput e command args)\<rparr>] \<and>
   errors (run_task (createStoreCommand e f command args) a) =
     errors a @
       (case snd (exec_CombinedOutput e command args) of
          None \<Rightarrow> []
        | Some er \<Rightarrow> [errors_Wrap (callers e 168) er (''error getting data for '' @ f)])"
  by (simp add: run_task_def createStoreCommand_def zipFiles_fold_perform errors_fold_perform
      split: prod.splits option.splits)

text \<open>
  C4: the fetch probe and the read probe store either one output record (the response
  body, the file contents) and no error record, on success, or one error record and no
  output record, on each of their failures.
\<close>

theorem fetch_and_read_store_output_or_error:
  "(case http_Get e ''http://geoip.maxmind.com/app/update_getipaddr'' of
      Body body \<Rightarrow>
        zipFiles (run_task (addIP e) a) = zipFiles a @ [\<lparr>name = ''ip-address.txt'', contents = body\<rparr>] \<and>
        errors (run_task (addIP e) a) = errors a
    | GetFailed err \<Rightarrow>
        zipFiles (run_task (addIP e) a) = zipFiles a \<and>
        errors (run_task (addIP e) a) =
          errors a @ [errors_Wrap (callers e 177) err ''error getting IP address'']
    | ReadAllFailed err \<Rightarrow>
        zipFiles (run_task (addIP e) a) = zipFiles a \<and>
        errors (run_task (addIP e) a) =
          errors a @ [errors_Wrap (callers e 183) err ''error reading IP address body'']) \<and>
   (case ioutil_ReadFile e ''/etc/resolv.conf'' of
      Inr cs \<Rightarrow>
        zipFiles (run_task (addResolvConf e) a) = zipFiles a @ [\<lparr>name = ''resolv.conf'', contents = cs\<rparr>] \<and>
        errors (run_task (addResolvConf e) a) = errors a
    | Inl err \<Rightarrow>
        zipFiles (run_task (addResolvConf e) a) = zipFiles a \<and>
        errors (run_task (addResolvConf e) a) =
          errors a @ [errors_Wrap (callers e 194) err ''error reading resolv.conf''])"
  by (simp add: run_task_def addIP_def addResolvConf_def host_def storeFile_def storeError_def
      split: http_outcome.splits sum.splits)

lemma addErrors_loop_eq:
  "addErrors_loop e buf errs = Inr (buf @ concat (map (\<lambda>er. fmt_plus_v er @ delimiter) errs))"
  by (induction errs arbitrary: buf) (simp_all add: buffer_Fprintf_def)

lemma addErrors_eq:
  "addErrors e a =
     (None,
      if errors a = [] then a
      else storeFile ''errors.txt'' (concat (map (\<lambda>er. fmt_plus_v er @ delimiter) (errors a))) a)"
  by (simp add: addErrors_def addErrors_loop_eq)

lemma sublist_messages: "m \<in> set (messages er) \<Longrightarrow> sublist m (fmt_plus_v er)"
proof (induction er)
  case (Extern s)
  then show ?case by simp
next
  case (Wrapped c msg st)
  show ?case
  proof (cases "m = msg")
    case True
    have "sublist msg ((fmt_plus_v c @ [CHR 0x0A]) @ msg @ st)"
      by (rule sublist_appendI)
    with True show ?thesis by simp
  next
    case False
    with Wrapped have "sublist m (fmt_plus_v c)" by simp
    then have "sublist m ([] @ fmt_plus_v c @ ([CHR 0x0A] @ msg @ st))"
      by (metis sublist_order.order_trans sublist_appendI)
    then show ?thesis by simp
  qed
qed

lemma sublist_block:
  "er \<in> set errs \<Longrightarrow> sublist (fmt_plus_v er) (concat (map (\<lambda>er. fmt_plus_v er @ delimiter) errs))"
proof (induction errs)
  case Nil
  then show ?case by simp
next
  case (Cons x errs)
  show ?case
  proof (cases "er = x")
    case True
    have "sublist (fmt_plus_v x)
            ([] @ fmt_plus_v x @ (delimiter @ concat (map (\<lambda>er. fmt_plus_v er @ delimiter) errs)))"
      by (rule sublist_appendI)
    with True show ?thesis by simp
  next
    case False
    with Cons have "sublist (fmt_plus_v er) (concat (map (\<lambda>er. fmt_plus_v er @ delimiter) errs))"
      by simp
    then have "sublist (fmt_plus_v er)
                 ((fmt_plus_v x @ delimiter) @ concat (map (\<lambda>er. fmt_plus_v er @ delimiter) errs) @ [])"
      by (metis sublist_order.order_trans sublist_appendI)
    then show ?thesis by simp
  qed
qed

text \<open>
  C5: \<^verbatim>\<open>addErrors\<close> returns no error; it leaves the outputs alone when there are no
  errors, and otherwise appends one record \<^verbatim>\<open>errors.txt\<close> whose content is, for every
  error in the order of accumulation, its \<^verbatim>\<open>%+v\<close> rendering followed by the delimiter:
  two newlines, ten hyphens, two newlines; every message text of every error (its own
  and its causes') occurs in it.
\<close>

theorem addErrors_report:
  "fst (addErrors e a) = None \<and>
   zipFiles (snd (addErrors e a)) =
     (if errors a = [] then zipFiles a
      else zipFiles a @
        [\<lparr>name = ''errors.txt'',
          contents =
            concat (map (\<lambda>er. fmt_plus_v er @
                           [CHR 0x0A, CHR 0x0A] @ ''----------'' @ [CHR 0x0A, CHR 0x0A])
                      (errors a))\<rparr>]) \<and>
   (\<forall>er \<in> set (errors a). \<forall>m \<in> set (messages er).
      sublist m
        (concat (map (\<lambda>er. fmt_plus_v er @
                        [CHR 0x0A, CHR 0x0A] @ ''----------'' @ [CHR 0x0A, CHR 0x0A])
                   (errors a))))"
proof -
  have "sublist m (concat (map (\<lambda>er. fmt_plus_v er @ delimiter) (errors a)))"
    if "er \<in> set (errors a)" and "m \<in> set (messages er)" for er m
    using sublist_messages [OF that(2)] sublist_block [OF that(1)]
    by (rule sublist_order.order_trans)
  then show ?thesis
    by (simp add: addErrors_eq storeFile_def delimiter_def)
qed

theorem addErrors_report_witness:
  "zipFiles (snd (addErrors example_env example_analyzer)) =
     [\<lparr>name = ''ip-addr.txt'', contents = ''1: lo: LOOPBACK''\<rparr>,
      \<lparr>name = ''ip-address.txt'', contents = ''192.0.2.7''\<rparr>,
      \<lparr>name = ''errors.txt'',
        contents =
          ''exit status 2'' @ [CHR 0x0A] @ ''error getting data for ip-addr.txt'' @
          [CHR 0x0A, CHR 0x0A] @ ''----------'' @ [CHR 0x0A, CHR 0x0A] @
          ''open /etc/resolv.conf: no such file or directory'' @ [CHR 0x0A] @
          ''error reading resolv.conf'' @
          [CHR 0x0A, CHR 0x0A] @ ''----------'' @ [CHR 0x0A, CHR 0x0A]\<rparr>] \<and>
   sublist ''error reading resolv.conf''
     (''exit status 2'' @ [CHR 0x0A] @ ''error getting data for ip-addr.txt'' @
      [CHR 0x0A, CHR 0x0A] @ ''----------'' @ [CHR 0x0A, CHR 0x0A] @
      ''open /etc/resolv.conf: no such file or directory'' @ [CHR 0x0A] @
      ''error reading resolv.conf'' @
      [CHR 0x0A, CHR 0x0A] @ ''----------'' @ [CHR 0x0A, CHR 0x0A]) \<and>
   sublist ''exit status 2''
     (''exit status 2'' @ [CHR 0x0A] @ ''error getting data for ip-addr.txt'' @
      [CHR 0x0A, CHR 0x0A] @ ''----------'' @ [CHR 0x0A, CHR 0x0A] @
      ''open /etc/resolv.conf: no such file or directory'' @ [CHR 0x0A] @
      ''error reading resolv.conf'' @
      [CHR 0x0A, CHR 0x0A] @ ''----------'' @ [CHR 0x0A, CHR 0x0A])"
  using addErrors_report [of example_env example_analyzer]
  by (simp add: example_analyzer_def)

text \<open>
  C8: \<^verbatim>\<open>addErrors\<close> leaves the error sequence as it found it.
\<close>

theorem addErrors_keeps_errors: "errors (snd (addErrors e a)) = errors a"
  by (simp add: addErrors_eq storeFile_def)

subsection \<open>The barrier\<close>

lemma length_tasks: "length (tasks e) = 19"
  by (simp add: tasks_def)

lemma createStoreCommand_not_Nil: "createStoreCommand e f command args \<noteq> []"
  by (simp add: createStoreCommand_def split: prod.splits)

lemma addIP_not_Nil: "addIP e \<noteq> []"
  by (simp add: addIP_def split: http_outcome.splits)

lemma addResolvConf_not_Nil: "addResolvConf e \<noteq> []"
  by (simp add: addResolvConf_def split: sum.splits)

lemma Nil_notin_tasks: "[] \<notin> set (tasks e)"
  by (simp add: tasks_def createStoreCommand_not_Nil [THEN not_sym] addIP_not_Nil [THEN not_sym]
      addResolvConf_not_Nil [THEN not_sym])

lemma tasks_not_Nil: "j < length (tasks e) \<Longrightarrow> tasks e ! j \<noteq> []"
  using Nil_notin_tasks [of e] by (metis nth_mem)

lemma unfinished_pos: "j < length gs \<Longrightarrow> gs ! j \<noteq> Finished \<Longrightarrow> 0 < unfinished gs"
  using unfinished_0 [of gs j] by auto

lemma past_barrier:
  assumes "reachable e s" and "pc s = AfterWait \<or> pc s = Exited"
  shows "length (goroutines s) = length (tasks e) \<and> wg s = 0 \<and>
         (\<forall>j<length (tasks e). goroutines s ! j = Finished \<and> calls_of j (trace s) = tasks e ! j) \<and>
         (\<forall>p\<in>set (trace s). fst p < length (tasks e))"
proof -
  have inv: "barrier_inv e s" using reachable_inv [OF assms(1)] by simp
  with assms(2) have len: "length (goroutines s) = length (tasks e)" and w: "wg s = 0"
    and u: "unfinished (goroutines s) = 0"
    by (auto simp: barrier_inv_def)
  have fin: "goroutines s ! j = Finished" if "j < length (tasks e)" for j
    using unfinished_0 [OF u] that len by simp
  have "calls_of j (trace s) @ remaining (goroutines s ! j) = tasks e ! j"
    if "j < length (tasks e)" for j
    using inv that len by (simp add: barrier_inv_def)
  with fin have calls: "calls_of j (trace s) = tasks e ! j" if "j < length (tasks e)" for j
    using that by simp
  have "\<forall>p\<in>set (trace s). fst p < length (goroutines s)"
    using inv by (simp add: barrier_inv_def)
  with len w fin calls show ?thesis by simp
qed

text \<open>
  C1: in every state in which \<^verbatim>\<open>main\<close> is past \<^verbatim>\<open>wg.Wait()\<close> (so before, and after,
  the error report is compiled), one goroutine has been started for each task of the
  list, the \<open>j\<close>-th for the \<open>j\<close>-th task; each has finished, having made exactly the
  calls of its task, once and in order, whatever the outcome of any probe; no call was
  made by anything else; and the counter of the wait group is 0.
\<close>

theorem scheduler_barrier:
  assumes "reachable e s" and "pc s = AfterWait \<or> pc s = Exited"
  shows "length (goroutines s) = length (tasks e) \<and> wg s = 0 \<and>
         (\<forall>j<length (tasks e). goroutines s ! j = Finished \<and> calls_of j (trace s) = tasks e ! j) \<and>
         (\<forall>p\<in>set (trace s). fst p < length (tasks e))"
  using assms by (rule past_barrier)

lemma newAnalyzer_example: "newAnalyzer example_env =
    Inr \<lparr>zipWriter = zip_NewWriter, zipFile = \<lparr>fdata = [], fpos = 0\<rparr>, errors = [], zipFiles = []\<rparr>"
  by (simp add: newAnalyzer_def os_OpenFile_def example_env_def)

theorem scheduler_barrier_witness:
  "\<exists>s. reachable example_env s \<and> pc s = AfterWait \<and> length (goroutines s) = 19 \<and> wg s = 0 \<and>
       goroutines s ! 18 = Finished \<and>
       calls_of 18 (trace s) =
         [StoreError (Wrapped (Extern ''open /etc/resolv.conf: no such file or directory'')
            ''error reading resolv.conf'' [])]"
proof -
  obtain s where s: "reachable example_env s" "pc s = AfterWait"
    using reachable_AfterWait [OF newAnalyzer_example] by blast
  have t: "tasks example_env ! 18 =
         [StoreError (Wrapped (Extern ''open /etc/resolv.conf: no such file or directory'')
            ''error reading resolv.conf'' [])]"
    by (simp add: tasks_def addResolvConf_def example_env_def errors_Wrap_def)
  have "length (goroutines s) = length (tasks example_env) \<and> wg s = 0 \<and>
         (\<forall>j<length (tasks example_env).
            goroutines s ! j = Finished \<and> calls_of j (trace s) = tasks example_env ! j) \<and>
         (\<forall>p\<in>set (trace s). fst p < length (tasks example_env))"
    using s(1) by (rule scheduler_barrier) (simp add: s(2))
  then have "length (goroutines s) = 19 \<and> wg s = 0 \<and> goroutines s ! 18 = Finished \<and>
       calls_of 18 (trace s) = tasks example_env ! 18"
    by (simp add: length_tasks)
  with s t show ?thesis by auto
qed


subsection \<open>The nil analyzer\<close>

lemma newAnalyzer_open_fails:
  "open_err e = Some err \<Longrightarrow>
   newAnalyzer e = Inl (errors_Wrap (callers e 115) err ''error opening mm-network-analysis.zip'')"
  by (simp add: newAnalyzer_def os_OpenFile_def zipFileName_def)

lemma newAnalyzer_open_ok:
  "open_err e = None \<Longrightarrow> \<exists>a0. newAnalyzer e = Inr a0"
  by (simp add: newAnalyzer_def os_OpenFile_def split: option.splits)

lemma nil_never_past_barrier:
  assumes nil: "newAnalyzer e = Inl werr" and r: "reachable e s"
  shows "store s = None \<and> trace s = [] \<and> pc s \<noteq> AfterWait \<and> pc s \<noteq> Exited \<and>
         (\<forall>j<length (goroutines s). \<exists>c r. goroutines s ! j = Running (c # r))"
proof -
  have b: "barrier_inv e s" and st: "store_inv e s"
    using reachable_inv [OF r] by simp_all
  from st nil have 1: "store s = None" "trace s = []" "pc s \<noteq> Exited"
    by (simp_all add: store_inv_def)
  have run: "\<exists>c r. goroutines s ! j = Running (c # r)" if j: "j < length (goroutines s)" for j
  proof -
    from b j have "calls_of j (trace s) @ remaining (goroutines s ! j) = tasks e ! j"
      and "j < length (tasks e)"
      by (simp_all add: barrier_inv_def)
    with 1(2) have "remaining (goroutines s ! j) \<noteq> []"
      using tasks_not_Nil [of j e] by (simp add: calls_of_def)
    then show ?thesis
      by (cases "goroutines s ! j") (auto simp: neq_Nil_conv)
  qed
  have "pc s \<noteq> AfterWait"
  proof
    assume "pc s = AfterWait"
    with b have len: "length (goroutines s) = length (tasks e)"
      and u: "unfinished (goroutines s) = 0"
      by (simp_all add: barrier_inv_def)
    from len have "0 < length (goroutines s)" by (simp add: length_tasks)
    with run [of 0] unfinished_0 [OF u, of 0] show False by auto
  qed
  with 1 run show ?thesis by blast
qed

lemma nil_crash_enabled:
  assumes nil: "newAnalyzer e = Inl werr" and r: "reachable e s"
    and "pc s \<noteq> Crashed" and "goroutines s \<noteq> []"
  shows "main_step e s (s\<lparr>pc := Crashed\<rparr>)"
proof -
  from assms(4) have 0: "0 < length (goroutines s)" by simp
  with nil_never_past_barrier [OF nil r] obtain c r' where
    "goroutines s ! 0 = Running (c # r')" "store s = None" "pc s \<noteq> Exited"
    by blast
  with assms(3) 0 show ?thesis by (intro main_step.step_call_nil [of s 0 c r']) auto
qed

lemma nil_crash_reachable:
  assumes nil: "newAnalyzer e = Inl werr"
  shows "\<exists>s. reachable e s \<and> pc s = Crashed"
proof -
  let ?s0 = "main_init e"
  let ?s1 = "?s0\<lparr>pc := Go 0, wg := wg ?s0 + 1\<rparr>"
  let ?s2 = "?s1\<lparr>pc := Loop (Suc 0), goroutines := goroutines ?s1 @ [Running (tasks e ! 0)]\<rparr>"
  have pc0: "pc ?s0 = Loop 0" using nil by (simp add: main_init_def)
  have 1: "main_step e ?s0 ?s1"
    using pc0 by (rule main_step.step_Add) (simp add: length_tasks)
  have 2: "main_step e ?s1 ?s2" by (rule main_step.step_go) simp
  have r2: "reachable e ?s2"
    using reachable_init 1 2 by (meson step_reachable)
  have "main_step e ?s2 (?s2\<lparr>pc := Crashed\<rparr>)"
    using nil r2 by (rule nil_crash_enabled) simp_all
  with r2 have "reachable e (?s2\<lparr>pc := Crashed\<rparr>)" by (rule step_reachable)
  then show ?thesis by (intro exI [of _ "?s2\<lparr>pc := Crashed\<rparr>"]) simp
qed

lemma no_crash_step:
  assumes "main_step e s s'" and "barrier_inv e s" and "store_inv e s"
    and "newAnalyzer e = Inr a0" and "pc s \<noteq> Crashed"
  shows "pc s' \<noteq> Crashed"
  using assms
proof (induction rule: main_step.induct)
  case (step_call_nil s j c r)
  then show ?case by (simp add: store_inv_def split: if_splits)
next
  case (step_Done_negative s j)
  then have "0 < unfinished (goroutines s)"
    by (intro unfinished_pos [of j]) auto
  with step_Done_negative show ?case
    by (auto simp: barrier_inv_def split: pc.splits)
next
  case (step_tail_nil s)
  then show ?case by (simp add: store_inv_def split: if_splits)
qed auto

lemma no_crash:
  assumes "newAnalyzer e = Inr a0" and "reachable e s"
  shows "pc s \<noteq> Crashed"
  using assms(2) unfolding reachable_def
proof (induction rule: rtranclp_induct)
  case base
  then show ?case using assms(1) by (simp add: main_init_def)
next
  case (step s s')
  then have "reachable e s" by (simp add: reachable_def)
  then have "barrier_inv e s" "store_inv e s" using reachable_inv by simp_all
  with step assms(1) show ?case by (intro no_crash_step [of e s s' a0]) auto
qed

text \<open>
  C9: the process can die of a panic exactly when opening the archive file fails. When
  it fails, \<^verbatim>\<open>main\<close> has logged the wrapped error and goes on with the nil pointer; from
  then on no call on the result store ever succeeds, \<^verbatim>\<open>main\<close> never gets past
  \<^verbatim>\<open>wg.Wait()\<close>, and as soon as a goroutine has been started the panic is its next step.
\<close>

theorem nil_analyzer_panics:
  "(\<exists>s. reachable e s \<and> pc s = Crashed) = (open_err e \<noteq> None) \<and>
   (\<forall>err. open_err e = Some err \<longrightarrow>
      logged (main_init e) =
        [errors_Wrap (callers e 115) err ''error opening mm-network-analysis.zip''] \<and>
      store (main_init e) = None \<and> pc (main_init e) = Loop 0 \<and>
      (\<forall>s. reachable e s \<longrightarrow>
         store s = None \<and> trace s = [] \<and> pc s \<noteq> AfterWait \<and> pc s \<noteq> Exited) \<and>
      (\<forall>s. reachable e s \<and> pc s \<noteq> Crashed \<and> goroutines s \<noteq> [] \<longrightarrow>
         main_step e s (s\<lparr>pc := Crashed\<rparr>)))"
proof -
  have A: "(\<exists>s. reachable e s \<and> pc s = Crashed) = (open_err e \<noteq> None)"
  proof (cases "open_err e")
    case None
    then obtain a0 where "newAnalyzer e = Inr a0" using newAnalyzer_open_ok by blast
    then have "\<not> (\<exists>s. reachable e s \<and> pc s = Crashed)" using no_crash by blast
    with None show ?thesis by simp
  next
    case (Some err)
    then have "\<exists>s. reachable e s \<and> pc s = Crashed"
      using nil_crash_reachable newAnalyzer_open_fails by blast
    with Some show ?thesis by simp
  qed
  have B: "logged (main_init e) =
        [errors_Wrap (callers e 115) err ''error opening mm-network-analysis.zip''] \<and>
      store (main_init e) = None \<and> pc (main_init e) = Loop 0 \<and>
      (\<forall>s. reachable e s \<longrightarrow>
         store s = None \<and> trace s = [] \<and> pc s \<noteq> AfterWait \<and> pc s \<noteq> Exited) \<and>
      (\<forall>s. reachable e s \<and> pc s \<noteq> Crashed \<and> goroutines s \<noteq> [] \<longrightarrow>
         main_step e s (s\<lparr>pc := Crashed\<rparr>))"
    if "open_err e = Some err" for err
  proof -
    from that have nil: "newAnalyzer e =
        Inl (errors_Wrap (callers e 115) err ''error opening mm-network-analysis.zip'')"
      by (rule newAnalyzer_open_fails)
    then have 1: "logged (main_init e) =
        [errors_Wrap (callers e 115) err ''error opening mm-network-analysis.zip''] \<and>
        store (main_init e) = None \<and> pc (main_init e) = Loop 0"
      by (simp add: main_init_def)
    have 2: "store s = None \<and> trace s = [] \<and> pc s \<noteq> AfterWait \<and> pc s \<noteq> Exited"
      if "reachable e s" for s
      using nil_never_past_barrier [OF nil that] by simp
    have 3: "main_step e s (s\<lparr>pc := Crashed\<rparr>)"
      if "reachable e s \<and> pc s \<noteq> Crashed \<and> goroutines s \<noteq> []" for s
      using nil_crash_enabled [OF nil] that by blast
    from 1 2 3 show ?thesis by blast
  qed
  from A B show ?thesis by blast
qed

theorem nil_analyzer_panics_witness:
  "(\<exists>s. reachable (example_env\<lparr>open_err := Some (Extern ''permission denied'')\<rparr>) s \<and> pc s = Crashed) \<and>
   logged (main_init (example_env\<lparr>open_err := Some (Extern ''permission denied'')\<rparr>)) =
     [Wrapped (Extern ''permission denied'') ''error opening mm-network-analysis.zip'' []] \<and>
   store (main_init (example_env\<lparr>open_err := Some (Extern ''permission denied'')\<rparr>)) = None"
  using nil_analyzer_panics [of "example_env\<lparr>open_err := Some (Extern ''permission denied'')\<rparr>"]
  by (simp add: example_env_def errors_Wrap_def)

subsection \<open>Writing the entries\<close>

lemma add_entries_Nil: "add_entries [] a = a"
  by (simp add: add_entries_def)

lemma add_entries_add_entries: "add_entries ys (add_entries xs a) = add_entries (xs @ ys) a"
  by (auto simp: add_entries_def)

lemma add_entries_sel:
  "entries (zipWriter (add_entries zfs a)) = entries (zipWriter a) @ zfs"
  "errors (add_entries zfs a) = errors a"
  "zipFiles (add_entries zfs a) = zipFiles a"
  "zipFile (add_entries zfs a) = zipFile a"
  by (simp_all add: add_entries_def)

lemma entry_ok_shift:
  "entry_ok e (zipWriter (add_entries [zf] a)) i = entry_ok e (zipWriter a) (Suc i)"
  by (simp add: entry_ok_def close_prev_err_def close_last_err_def add_entries_def)

lemma close_prev_err_shift:
  "close_prev_err e (zipWriter (add_entries [zf] a)) i = close_prev_err e (zipWriter a) (Suc i)"
  by (simp add: close_prev_err_def close_last_err_def add_entries_def)

lemma writeFile_ok:
  assumes "entry_ok e (zipWriter a) 0"
  shows "writeFile e zf a = (None, add_entries [zf] a)"
  using assms
  by (simp add: entry_ok_def close_prev_err_def writeFile_def zip_Create_def zip_Write_def
      add_entries_def)

lemma writeFile_close_fails:
  assumes "close_prev_err e (zipWriter a) 0 = Some c"
  shows "writeFile e zf a =
           (Some (errors_Wrap (callers e 151) c (''error creating '' @ name zf @ '' in zip file'')),
            a\<lparr>zipWriter := (zipWriter a)\<lparr>last_open := False\<rparr>\<rparr>)"
  using assms by (simp add: close_prev_err_def writeFile_def zip_Create_def)

lemma writeFile_header_fails:
  assumes "close_prev_err e (zipWriter a) 0 = None"
    and "zip_writeHeader_err e (length (entries (zipWriter a))) = Some c"
  shows "writeFile e zf a =
           (Some (errors_Wrap (callers e 151) c (''error creating '' @ name zf @ '' in zip file'')),
            a\<lparr>zipWriter :=
                (zipWriter a)\<lparr>entries := entries (zipWriter a) @ [\<lparr>name = name zf, contents = []\<rparr>],
                              last_open := False\<rparr>\<rparr>)"
  using assms by (simp add: close_prev_err_def writeFile_def zip_Create_def)

lemma writeFile_write_fails:
  assumes "close_prev_err e (zipWriter a) 0 = None"
    and "zip_writeHeader_err e (length (entries (zipWriter a))) = None"
    and "zip_Write_err e (length (entries (zipWriter a))) = Some c"
  shows "writeFile e zf a =
           (Some (errors_Wrap (callers e 155) c (''error writing '' @ name zf @ '' to zip file'')),
            add_entries [\<lparr>name = name zf, contents = []\<rparr>] a)"
  using assms
  by (simp add: close_prev_err_def writeFile_def zip_Create_def zip_Write_def add_entries_def)

lemma writeFile_None_iff: "(fst (writeFile e zf a) = None) = entry_ok e (zipWriter a) 0"
  by (auto simp: entry_ok_def close_prev_err_def writeFile_def zip_Create_def zip_Write_def
      split: option.splits)

text \<open>What a failing \<^verbatim>\<open>writeFile\<close> leaves: nothing new, or the record without bytes.\<close>

lemma writeFile_cases:
  "writeFile e zf b = (None, add_entries [zf] b) \<or>
   (\<exists>err. writeFile e zf b = (Some err, b\<lparr>zipWriter := (zipWriter b)\<lparr>last_open := False\<rparr>\<rparr>)) \<or>
   (\<exists>err lo. writeFile e zf b =
      (Some err,
       b\<lparr>zipWriter :=
           (zipWriter b)\<lparr>entries := entries (zipWriter b) @ [\<lparr>name = name zf, contents = []\<rparr>],
                         last_open := lo\<rparr>\<rparr>))"
proof (cases "close_prev_err e (zipWriter b) 0")
  case (Some c)
  then show ?thesis by (simp add: writeFile_close_fails)
next
  case None
  note cl = this
  show ?thesis
  proof (cases "zip_writeHeader_err e (length (entries (zipWriter b)))")
    case (Some c)
    with cl show ?thesis using writeFile_header_fails [of e b c zf] by blast
  next
    case None
    note hd = this
    show ?thesis
    proof (cases "zip_Write_err e (length (entries (zipWriter b)))")
      case (Some c)
      have "writeFile e zf b =
           (Some (errors_Wrap (callers e 155) c (''error writing '' @ name zf @ '' to zip file'')),
            add_entries [\<lparr>name = name zf, contents = []\<rparr>] b)"
        using cl hd Some by (rule writeFile_write_fails)
      then have "\<exists>err lo. writeFile e zf b =
        (Some err,
         b\<lparr>zipWriter :=
           (zipWriter b)\<lparr>entries := entries (zipWriter b) @ [\<lparr>name = name zf, contents = []\<rparr>],
                         last_open := lo\<rparr>\<rparr>)"
        by (auto simp: add_entries_def)
      then show ?thesis by blast
    next
      case None
      with cl hd have "entry_ok e (zipWriter b) 0" by (simp add: entry_ok_def)
      then show ?thesis by (simp add: writeFile_ok)
    qed
  qed
qed

lemma writeFiles_loop_ok:
  assumes "\<forall>i<length zfs. entry_ok e (zipWriter a) i"
  shows "writeFiles_loop e zfs a = (None, add_entries zfs a)"
  using assms
proof (induction zfs arbitrary: a)
  case Nil
  then show ?case by (simp add: add_entries_Nil)
next
  case (Cons zf zfs)
  have "0 < length (zf # zfs)" by simp
  with Cons.prems have z: "entry_ok e (zipWriter a) 0" by blast
  have "\<forall>i<length zfs. entry_ok e (zipWriter (add_entries [zf] a)) i"
  proof (intro allI impI)
    fix i assume "i < length zfs"
    then have "Suc i < length (zf # zfs)" by simp
    with Cons.prems have "entry_ok e (zipWriter a) (Suc i)" by blast
    then show "entry_ok e (zipWriter (add_entries [zf] a)) i" by (simp add: entry_ok_shift)
  qed
  then have "writeFiles_loop e zfs (add_entries [zf] a) = (None, add_entries zfs (add_entries [zf] a))"
    by (rule Cons.IH)
  then show ?case
    by (simp add: writeFile_ok [OF z] add_entries_add_entries)
qed

lemma writeFiles_loop_None:
  assumes "fst (writeFiles_loop e zfs a) = None"
  shows "\<forall>i<length zfs. entry_ok e (zipWriter a) i"
  using assms
proof (induction zfs arbitrary: a)
  case Nil
  then show ?case by simp
next
  case (Cons zf zfs)
  have wf: "fst (writeFile e zf a) = None"
    using Cons.prems by (cases "writeFile e zf a") (auto split: option.splits)
  then have z: "entry_ok e (zipWriter a) 0"
    by (simp add: writeFile_None_iff)
  have eq: "writeFile e zf a = (None, add_entries [zf] a)"
    by (rule writeFile_ok [OF z])
  with Cons.prems have "fst (writeFiles_loop e zfs (add_entries [zf] a)) = None" by simp
  then have IH: "\<forall>i<length zfs. entry_ok e (zipWriter (add_entries [zf] a)) i"
    by (rule Cons.IH)
  show ?case
  proof (intro allI impI)
    fix i assume i: "i < length (zf # zfs)"
    show "entry_ok e (zipWriter a) i"
    proof (cases i)
      case 0
      with z show ?thesis by simp
    next
      case (Suc i')
      with i have "i' < length zfs" by simp
      with IH Suc show ?thesis by (simp add: entry_ok_shift)
    qed
  qed
qed

lemma writeFiles_loop_fail:
  assumes "k < length zfs"
    and "\<forall>i<k. entry_ok e (zipWriter a) i"
    and "fst (writeFile e (zfs ! k) (add_entries (take k zfs) a)) \<noteq> None"
  shows "writeFiles_loop e zfs a = writeFile e (zfs ! k) (add_entries (take k zfs) a)"
  using assms
proof (induction zfs arbitrary: a k)
  case Nil
  then show ?case by simp
next
  case (Cons zf zfs)
  show ?case
  proof (cases k)
    case 0
    with Cons.prems(3) show ?thesis
      by (cases "writeFile e zf a") (auto simp: add_entries_Nil)
  next
    case (Suc k')
    then have "0 < k" by simp
    with Cons.prems(2) have z: "entry_ok e (zipWriter a) 0" by blast
    have eq: "writeFile e zf a = (None, add_entries [zf] a)"
      by (rule writeFile_ok [OF z])
    have k': "k' < length zfs" using Cons.prems(1) Suc by simp
    have pre: "\<forall>i<k'. entry_ok e (zipWriter (add_entries [zf] a)) i"
    proof (intro allI impI)
      fix i assume "i < k'"
      then have "Suc i < k" using Suc by simp
      with Cons.prems(2) have "entry_ok e (zipWriter a) (Suc i)" by blast
      then show "entry_ok e (zipWriter (add_entries [zf] a)) i" by (simp add: entry_ok_shift)
    qed
    have f: "fst (writeFile e (zfs ! k') (add_entries (take k' zfs) (add_entries [zf] a))) \<noteq> None"
      using Cons.prems(3) Suc by (simp add: add_entries_add_entries)
    have "writeFiles_loop e zfs (add_entries [zf] a) =
            writeFile e (zfs ! k') (add_entries (take k' zfs) (add_entries [zf] a))"
      using k' pre f by (rule Cons.IH)
    then show ?thesis using Suc eq by (simp add: add_entries_add_entries)
  qed
qed

lemma entry_ok_after:
  "k \<le> length zfs \<Longrightarrow>
   entry_ok e (zipWriter (add_entries (take k zfs) a)) 0 = entry_ok e (zipWriter a) k"
  by (cases k) (auto simp: entry_ok_def close_prev_err_def close_last_err_def add_entries_def)

lemma close_prev_err_after:
  "k \<le> length zfs \<Longrightarrow>
   close_prev_err e (zipWriter (add_entries (take k zfs) a)) 0 = close_prev_err e (zipWriter a) k"
  by (cases k) (auto simp: close_prev_err_def close_last_err_def add_entries_def)


lemma close_sel:
  "zipWriter (snd (close e a)) = zipWriter a"
  "zipFiles (snd (close e a)) = zipFiles a"
  "errors (snd (close e a)) = errors a"
  by (simp_all add: close_def split: sum.splits option.splits)

lemma close_flushes:
  assumes "close_last_err e (zipWriter a) = None" and "zip_Close_err e = None"
    and "fpos (zipFile a) = 0"
  shows "fdata (zipFile (snd (close e a))) =
           zip_encode e (entries (zipWriter a)) @
           drop (length (zip_encode e (entries (zipWriter a)))) (fdata (zipFile a))"
  using assms by (simp add: close_def zip_Close_def file_Write_def split: option.splits)

lemma close_last_err_add_entries:
  "zfs \<noteq> [] \<Longrightarrow>
   close_last_err e (zipWriter (add_entries zfs a)) =
     zip_entry_close_err e (length (entries (zipWriter a)) + length zfs - 1)"
  by (simp add: close_last_err_def add_entries_def)

lemma writeFiles_None_iff:
  "(fst (writeFiles e a) = None) = (\<forall>i<length (zipFiles a). entry_ok e (zipWriter a) i)"
proof
  assume "fst (writeFiles e a) = None"
  then show "\<forall>i<length (zipFiles a). entry_ok e (zipWriter a) i"
    using writeFiles_loop_None [of e "zipFiles a" a] by (simp add: writeFiles_def)
next
  assume "\<forall>i<length (zipFiles a). entry_ok e (zipWriter a) i"
  then show "fst (writeFiles e a) = None"
    using writeFiles_loop_ok [of "zipFiles a" e a] by (simp add: writeFiles_def)
qed

lemma entry_ok_fresh:
  assumes "zip_entry_close_err e (i - 1) = None \<or> i = 0"
    and "zip_writeHeader_err e i = None" and "zip_Write_err e i = None"
  shows "entry_ok e zip_NewWriter i"
  using assms
  by (auto simp: entry_ok_def close_prev_err_def close_last_err_def zip_NewWriter_def)

text \<open>
  C6: for every state of the result store, when the zip writer is fresh and the archive
  file was opened empty, when no entry fails (in being closed, in its header, in its
  bytes) and the directory is written, \<^verbatim>\<open>writeFiles\<close> returns no error, the archive has
  one entry per output record, with the record's name and bytes, in the order of the
  store, duplicates included, and the file that \<^verbatim>\<open>close\<close> leaves is the encoding of
  exactly these records.
\<close>

theorem writeFiles_round_trip:
  assumes "zipWriter a = zip_NewWriter" and "zipFile a = \<lparr>fdata = [], fpos = 0\<rparr>"
    and "\<forall>i<length (zipFiles a).
           zip_entry_close_err e i = None \<and> zip_writeHeader_err e i = None \<and>
           zip_Write_err e i = None"
    and "zip_Close_err e = None"
  shows "fst (writeFiles e a) = None \<and>
         entries (zipWriter (snd (writeFiles e a))) = zipFiles a \<and>
         zipFiles (snd (writeFiles e a)) = zipFiles a \<and>
         errors (snd (writeFiles e a)) = errors a \<and>
         fdata (zipFile (snd (close e (snd (writeFiles e a))))) = zip_encode e (zipFiles a)"
proof -
  have ok: "\<forall>i<length (zipFiles a). entry_ok e (zipWriter a) i"
  proof (intro allI impI)
    fix i assume i: "i < length (zipFiles a)"
    then have "i - 1 < length (zipFiles a)" by simp
    with assms(3) i have "zip_entry_close_err e (i - 1) = None"
      "zip_writeHeader_err e i = None" "zip_Write_err e i = None"
      by blast+
    then show "entry_ok e (zipWriter a) i"
      unfolding assms(1) by (intro entry_ok_fresh) simp_all
  qed
  then have w: "writeFiles e a = (None, add_entries (zipFiles a) a)"
    using writeFiles_loop_ok [of "zipFiles a" e a] by (simp add: writeFiles_def)
  let ?b = "add_entries (zipFiles a) a"
  have en: "entries (zipWriter ?b) = zipFiles a"
    by (simp add: add_entries_sel assms(1) zip_NewWriter_def)
  have cl: "close_last_err e (zipWriter ?b) = None"
  proof (cases "zipFiles a = []")
    case True
    then show ?thesis
      by (simp add: add_entries_Nil assms(1) close_last_err_def zip_NewWriter_def)
  next
    case False
    then have "length (zipFiles a) - 1 < length (zipFiles a)" by simp
    with assms(3) have "zip_entry_close_err e (length (zipFiles a) - 1) = None" by blast
    with False show ?thesis
      by (simp add: close_last_err_add_entries assms(1) zip_NewWriter_def)
  qed
  have "fdata (zipFile (snd (close e ?b))) =
          zip_encode e (entries (zipWriter ?b)) @
          drop (length (zip_encode e (entries (zipWriter ?b)))) (fdata (zipFile ?b))"
    using cl assms(4) by (rule close_flushes) (simp add: add_entries_sel assms(2))
  then have "fdata (zipFile (snd (close e ?b))) = zip_encode e (zipFiles a)"
    unfolding en by (simp add: add_entries_sel assms(2))
  with w en show ?thesis by (simp add: add_entries_sel)
qed

theorem writeFiles_round_trip_witness:
  "fst (writeFiles example_env example_analyzer) = None \<and>
   entries (zipWriter (snd (writeFiles example_env example_analyzer))) =
     [\<lparr>name = ''ip-addr.txt'', contents = ''1: lo: LOOPBACK''\<rparr>,
      \<lparr>name = ''ip-address.txt'', contents = ''192.0.2.7''\<rparr>] \<and>
   fdata (zipFile (snd (close example_env (snd (writeFiles example_env example_analyzer))))) =
     ''ip-addr.txt1: lo: LOOPBACKip-address.txt192.0.2.7''"
  using writeFiles_round_trip [of example_analyzer example_env]
  by (simp add: example_analyzer_def example_env_def)

text \<open>
  Without that condition the records need not reach the archive: when the write of the
  first entry fails, the second record of the store has no entry, and the produced
  file holds the name of the first and none of its bytes.
\<close>

theorem writeFiles_round_trip_counterexample:
  "\<lparr>name = ''ip-address.txt'', contents = ''192.0.2.7''\<rparr> \<in> set (zipFiles example_analyzer) \<and>
   ''ip-address.txt'' \<notin>
     set (map name (entries (zipWriter (snd (writeFiles
       (example_env\<lparr>zip_Write_err :=
          (\<lambda>k. if k = 0 then Some (Extern ''no space left on device'') else None)\<rparr>)
       example_analyzer))))) \<and>
   fdata (zipFile (snd (close
       (example_env\<lparr>zip_Write_err :=
          (\<lambda>k. if k = 0 then Some (Extern ''no space left on device'') else None)\<rparr>)
       (snd (writeFiles
         (example_env\<lparr>zip_Write_err :=
            (\<lambda>k. if k = 0 then Some (Extern ''no space left on device'') else None)\<rparr>)
         example_analyzer))))) = ''ip-addr.txt''"
  by (simp add: example_analyzer_def example_env_def writeFiles_def writeFile_def zip_Create_def
      zip_Write_def zip_NewWriter_def close_last_err_def close_def zip_Close_def file_Write_def)


lemma main_tail_logs_writeFiles:
  assumes "fst (writeFiles e (snd (addErrors e a0))) = Some err"
  shows "err \<in> set (snd (main_tail e a0 lg))"
  using assms
  by (auto simp: main_tail_def log_Println_def split: prod.splits)

text \<open>
  C7: when the \<open>k\<close>-th output record is the first to meet a failure (closing the entry
  before it, writing its header, writing its bytes), \<^verbatim>\<open>writeFiles\<close> returns that
  failure wrapped, as an error of creating or of writing the entry; the archive holds
  the \<open>k\<close> records before it, then the record of the failed entry without bytes
  unless the failure came before the record was made, and nothing of the records after
  it; the result store keeps its errors and outputs as they were; and \<^verbatim>\<open>main\<close> logs
  the returned error.
\<close>

theorem writeFiles_fail_fast:
  assumes "k < length (zipFiles a)"
    and "\<forall>i<k. entry_ok e (zipWriter a) i"
    and "close_prev_err e (zipWriter a) k = Some cause \<or>
         close_prev_err e (zipWriter a) k = None \<and>
         zip_writeHeader_err e (length (entries (zipWriter a)) + k) = Some cause \<or>
         close_prev_err e (zipWriter a) k = None \<and>
         zip_writeHeader_err e (length (entries (zipWriter a)) + k) = None \<and>
         zip_Write_err e (length (entries (zipWriter a)) + k) = Some cause"
  shows "fst (writeFiles e a) =
           Some (if close_prev_err e (zipWriter a) k = None \<and>
                    zip_writeHeader_err e (length (entries (zipWriter a)) + k) = None
                 then errors_Wrap (callers e 155) cause
                        (''error writing '' @ name (zipFiles a ! k) @ '' to zip file'')
                 else errors_Wrap (callers e 151) cause
                        (''error creating '' @ name (zipFiles a ! k) @ '' in zip file'')) \<and>
         entries (zipWriter (snd (writeFiles e a))) =
           entries (zipWriter a) @ take k (zipFiles a) @
             (if close_prev_err e (zipWriter a) k = None
              then [\<lparr>name = name (zipFiles a ! k), contents = []\<rparr>] else []) \<and>
         errors (snd (writeFiles e a)) = errors a \<and>
         zipFiles (snd (writeFiles e a)) = zipFiles a \<and>
         (\<forall>a0 lg. snd (addErrors e a0) = a \<longrightarrow>
            (\<exists>err. fst (writeFiles e a) = Some err \<and> err \<in> set (snd (main_tail e a0 lg))))"
proof -
  let ?b = "add_entries (take k (zipFiles a)) a"
  let ?n = "length (entries (zipWriter a)) + k"
  let ?zf = "zipFiles a ! k"
  have kl: "k \<le> length (zipFiles a)" using assms(1) by simp
  have n: "length (entries (zipWriter ?b)) = ?n"
    using assms(1) by (simp add: add_entries_sel)
  have cp: "close_prev_err e (zipWriter ?b) 0 = close_prev_err e (zipWriter a) k"
    using kl by (rule close_prev_err_after)
  have sel: "entries (zipWriter ?b) = entries (zipWriter a) @ take k (zipFiles a)"
    "errors ?b = errors a" "zipFiles ?b = zipFiles a"
    by (simp_all add: add_entries_sel)
  consider (cl) "close_prev_err e (zipWriter a) k = Some cause"
    | (hd) "close_prev_err e (zipWriter a) k = None" "zip_writeHeader_err e ?n = Some cause"
    | (wr) "close_prev_err e (zipWriter a) k = None" "zip_writeHeader_err e ?n = None"
        "zip_Write_err e ?n = Some cause"
    using assms(3) by auto
  then have wf: "fst (writeFile e ?zf ?b) =
           Some (if close_prev_err e (zipWriter a) k = None \<and> zip_writeHeader_err e ?n = None
                 then errors_Wrap (callers e 155) cause
                        (''error writing '' @ name ?zf @ '' to zip file'')
                 else errors_Wrap (callers e 151) cause
                        (''error creating '' @ name ?zf @ '' in zip file'')) \<and>
         entries (zipWriter (snd (writeFile e ?zf ?b))) =
           entries (zipWriter a) @ take k (zipFiles a) @
             (if close_prev_err e (zipWriter a) k = None
              then [\<lparr>name = name ?zf, contents = []\<rparr>] else []) \<and>
         errors (snd (writeFile e ?zf ?b)) = errors a \<and>
         zipFiles (snd (writeFile e ?zf ?b)) = zipFiles a"
  proof cases
    case cl
    then have "close_prev_err e (zipWriter ?b) 0 = Some cause" by (simp add: cp)
    then show ?thesis
      using cl by (simp add: writeFile_close_fails sel)
  next
    case hd
    then have "close_prev_err e (zipWriter ?b) 0 = None"
      "zip_writeHeader_err e (length (entries (zipWriter ?b))) = Some cause"
      by (simp_all add: cp n)
    then show ?thesis
      using hd by (simp add: writeFile_header_fails sel)
  next
    case wr
    then have "close_prev_err e (zipWriter ?b) 0 = None"
      "zip_writeHeader_err e (length (entries (zipWriter ?b))) = None"
      "zip_Write_err e (length (entries (zipWriter ?b))) = Some cause"
      by (simp_all add: cp n)
    then show ?thesis
      using wr by (simp add: writeFile_write_fails add_entries_sel)
  qed
  then have "fst (writeFile e ?zf ?b) \<noteq> None" by simp
  with assms(1,2) have "writeFiles_loop e (zipFiles a) a = writeFile e ?zf ?b"
    by (rule writeFiles_loop_fail)
  then have eq: "writeFiles e a = writeFile e ?zf ?b"
    by (simp add: writeFiles_def)
  have 4: "\<exists>err. fst (writeFiles e a) = Some err \<and> err \<in> set (snd (main_tail e a0 lg))"
    if "snd (addErrors e a0) = a" for a0 lg
    using wf eq main_tail_logs_writeFiles [of e a0 _ lg] that by auto
  from wf 4 show ?thesis unfolding eq by blast
qed

lemma addErrors_example:
  "snd (addErrors e example_analyzer) =
     example_analyzer
       \<lparr>zipFiles :=
          [\<lparr>name = ''ip-addr.txt'', contents = ''1: lo: LOOPBACK''\<rparr>,
           \<lparr>name = ''ip-address.txt'', contents = ''192.0.2.7''\<rparr>,
           \<lparr>name = ''errors.txt'',
             contents = concat (map (\<lambda>er. fmt_plus_v er @ delimiter) (errors example_analyzer))\<rparr>]\<rparr>"
  "zipWriter example_analyzer = zip_NewWriter"
  by (simp_all add: addErrors_eq storeFile_def example_analyzer_def)

theorem writeFiles_fail_fast_witness:
  "fst (writeFiles
         (example_env\<lparr>zip_writeHeader_err :=
            (\<lambda>k. if k = 1 then Some (Extern ''no space left on device'') else None)\<rparr>)
         (snd (addErrors
            (example_env\<lparr>zip_writeHeader_err :=
               (\<lambda>k. if k = 1 then Some (Extern ''no space left on device'') else None)\<rparr>)
            example_analyzer))) =
     Some (Wrapped (Extern ''no space left on device'')
             ''error creating ip-address.txt in zip file'' []) \<and>
   entries (zipWriter (snd (writeFiles
         (example_env\<lparr>zip_writeHeader_err :=
            (\<lambda>k. if k = 1 then Some (Extern ''no space left on device'') else None)\<rparr>)
         (snd (addErrors
            (example_env\<lparr>zip_writeHeader_err :=
               (\<lambda>k. if k = 1 then Some (Extern ''no space left on device'') else None)\<rparr>)
            example_analyzer))))) =
     [\<lparr>name = ''ip-addr.txt'', contents = ''1: lo: LOOPBACK''\<rparr>,
      \<lparr>name = ''ip-address.txt'', contents = []\<rparr>] \<and>
   Wrapped (Extern ''no space left on device'') ''error creating ip-address.txt in zip file'' []
     \<in> set (snd (main_tail
         (example_env\<lparr>zip_writeHeader_err :=
            (\<lambda>k. if k = 1 then Some (Extern ''no space left on device'') else None)\<rparr>)
         example_analyzer []))"
proof -
  let ?E = "example_env\<lparr>zip_writeHeader_err :=
            (\<lambda>k. if k = 1 then Some (Extern ''no space left on device'') else None)\<rparr>"
  let ?a = "snd (addErrors ?E example_analyzer)"
  have k: "1 < length (zipFiles ?a)"
    by (simp add: addErrors_example)
  have ok: "\<forall>i<1. entry_ok ?E (zipWriter ?a) i"
    by (simp add: addErrors_example entry_ok_def close_prev_err_def close_last_err_def
        zip_NewWriter_def example_env_def)
  have cp: "close_prev_err ?E (zipWriter ?a) 1 = None"
    by (simp add: addErrors_example close_prev_err_def zip_NewWriter_def example_env_def)
  have hd: "zip_writeHeader_err ?E (length (entries (zipWriter ?a)) + 1) =
           Some (Extern ''no space left on device'')"
    by (simp add: addErrors_example zip_NewWriter_def)
  from cp hd
  have f: "close_prev_err ?E (zipWriter ?a) 1 = Some (Extern ''no space left on device'') \<or>
         close_prev_err ?E (zipWriter ?a) 1 = None \<and>
         zip_writeHeader_err ?E (length (entries (zipWriter ?a)) + 1) =
           Some (Extern ''no space left on device'') \<or>
         close_prev_err ?E (zipWriter ?a) 1 = None \<and>
         zip_writeHeader_err ?E (length (entries (zipWriter ?a)) + 1) = None \<and>
         zip_Write_err ?E (length (entries (zipWriter ?a)) + 1) =
           Some (Extern ''no space left on device'')"
    by blast
  note t = writeFiles_fail_fast [OF k ok f]
  from t have "fst (writeFiles ?E ?a) =
     Some (errors_Wrap (callers ?E 151) (Extern ''no space left on device'')
             (''error creating '' @ name (zipFiles ?a ! 1) @ '' in zip file''))"
    unfolding cp hd by simp
  then have 1: "fst (writeFiles ?E ?a) =
     Some (Wrapped (Extern ''no space left on device'')
             ''error creating ip-address.txt in zip file'' [])"
    by (simp add: addErrors_example errors_Wrap_def example_env_def)
  from t have "entries (zipWriter (snd (writeFiles ?E ?a))) =
     entries (zipWriter ?a) @ take 1 (zipFiles ?a) @
       [\<lparr>name = name (zipFiles ?a ! 1), contents = []\<rparr>]"
    unfolding cp hd by simp
  then have 2: "entries (zipWriter (snd (writeFiles ?E ?a))) =
     [\<lparr>name = ''ip-addr.txt'', contents = ''1: lo: LOOPBACK''\<rparr>,
      \<lparr>name = ''ip-address.txt'', contents = []\<rparr>]"
    by (simp add: addErrors_example zip_NewWriter_def)
  from t have "\<exists>err. fst (writeFiles ?E ?a) = Some err \<and>
      err \<in> set (snd (main_tail ?E example_analyzer []))"
    by blast
  with 1 have 3: "Wrapped (Extern ''no space left on device'')
      ''error creating ip-address.txt in zip file'' []
     \<in> set (snd (main_tail ?E example_analyzer []))"
    by auto
  from 1 2 3 show ?thesis by blast
qed

subsection \<open>The order of the archive\<close>

lemma writeFiles_loop_names:
  "\<exists>k\<le>length zfs.
     map name (entries (zipWriter (snd (writeFiles_loop e zfs b)))) =
       map name (entries (zipWriter b)) @ take k (map name zfs)"
proof (induction zfs arbitrary: b)
  case Nil
  then show ?case by simp
next
  case (Cons zf zfs)
  consider (ok) "writeFile e zf b = (None, add_entries [zf] b)"
    | (nothing_new) err where
        "writeFile e zf b = (Some err, b\<lparr>zipWriter := (zipWriter b)\<lparr>last_open := False\<rparr>\<rparr>)"
    | (record_left) err lo where
        "writeFile e zf b =
           (Some err,
            b\<lparr>zipWriter :=
                (zipWriter b)\<lparr>entries := entries (zipWriter b) @ [\<lparr>name = name zf, contents = []\<rparr>],
                              last_open := lo\<rparr>\<rparr>)"
    using writeFile_cases [of e zf b] by blast
  then show ?case
  proof cases
    case ok
    from Cons.IH [of "add_entries [zf] b"] obtain k where
      k: "k \<le> length zfs"
      "map name (entries (zipWriter (snd (writeFiles_loop e zfs (add_entries [zf] b))))) =
         map name (entries (zipWriter (add_entries [zf] b))) @ take k (map name zfs)"
      by blast
    have "Suc k \<le> length (zf # zfs)" using k(1) by simp
    moreover have "map name (entries (zipWriter (snd (writeFiles_loop e (zf # zfs) b)))) =
       map name (entries (zipWriter b)) @ take (Suc k) (map name (zf # zfs))"
      using ok k(2) by (simp add: add_entries_sel)
    ultimately show ?thesis by blast
  next
    case nothing_new
    then have "map name (entries (zipWriter (snd (writeFiles_loop e (zf # zfs) b)))) =
       map name (entries (zipWriter b)) @ take 0 (map name (zf # zfs))"
      by simp
    then show ?thesis by blast
  next
    case record_left
    then have "map name (entries (zipWriter (snd (writeFiles_loop e (zf # zfs) b)))) =
       map name (entries (zipWriter b)) @ take (Suc 0) (map name (zf # zfs))"
      by simp
    moreover have "Suc 0 \<le> length (zf # zfs)" by simp
    ultimately show ?thesis by blast
  qed
qed

lemma writeFiles_loop_store:
  "zipFiles (snd (writeFiles_loop e zfs b)) = zipFiles b \<and>
   errors (snd (writeFiles_loop e zfs b)) = errors b \<and>
   zipFile (snd (writeFiles_loop e zfs b)) = zipFile b"
proof (induction zfs arbitrary: b)
  case Nil
  then show ?case by simp
next
  case (Cons zf zfs)
  consider (ok) "writeFile e zf b = (None, add_entries [zf] b)"
    | (nothing_new) err where
        "writeFile e zf b = (Some err, b\<lparr>zipWriter := (zipWriter b)\<lparr>last_open := False\<rparr>\<rparr>)"
    | (record_left) err lo where
        "writeFile e zf b =
           (Some err,
            b\<lparr>zipWriter :=
                (zipWriter b)\<lparr>entries := entries (zipWriter b) @ [\<lparr>name = name zf, contents = []\<rparr>],
                              last_open := lo\<rparr>\<rparr>)"
    using writeFile_cases [of e zf b] by blast
  then show ?case
  proof cases
    case ok
    with Cons.IH [of "add_entries [zf] b"] show ?thesis by (simp add: add_entries_sel)
  next
    case nothing_new
    then show ?thesis by simp
  next
    case record_left
    then show ?thesis by simp
  qed
qed

lemma addErrors_sel:
  "zipWriter (snd (addErrors e a)) = zipWriter a"
  "zipFile (snd (addErrors e a)) = zipFile a"
  "errors (snd (addErrors e a)) = errors a"
  by (simp_all add: addErrors_eq storeFile_def)

lemma main_tail_fst:
  "fst (main_tail e a lg) = snd (close e (snd (writeFiles e (snd (addErrors e a)))))"
  by (simp add: main_tail_def split: prod.splits)

lemma main_tail_sel:
  "zipWriter (fst (main_tail e a lg)) = zipWriter (snd (writeFiles e (snd (addErrors e a))))"
  "zipFiles (fst (main_tail e a lg)) = zipFiles (snd (addErrors e a))"
  "errors (fst (main_tail e a lg)) = errors a"
  using writeFiles_loop_store [of e "zipFiles (snd (addErrors e a))" "snd (addErrors e a)"]
  by (simp_all add: main_tail_fst close_sel writeFiles_def addErrors_sel)

lemma files_of_append: "files_of (xs @ ys) = files_of xs @ files_of ys"
  by (induction xs rule: files_of.induct) simp_all

lemma files_of_mono: "set cs \<subseteq> set ds \<Longrightarrow> set (files_of cs) \<subseteq> set (files_of ds)"
proof (induction cs rule: files_of.induct)
  case 1
  then show ?case by simp
next
  case (2 nm bs r)
  then have "StoreFile nm bs \<in> set ds" by simp
  then obtain xs ys where "ds = xs @ StoreFile nm bs # ys" by (meson split_list)
  then have "\<lparr>name = nm, contents = bs\<rparr> \<in> set (files_of ds)"
    by (simp add: files_of_append)
  with 2 show ?case by simp
next
  case (3 err r)
  then show ?case by simp
qed

lemma calls_of_subset: "set (calls_of j tr) \<subseteq> set (map snd tr)"
  by (auto simp: calls_of_def)

lemma fresh_analyzer:
  assumes "newAnalyzer e = Inr a0"
  shows "zipFiles a0 = []" "errors a0 = []" "zipWriter a0 = zip_NewWriter"
    "zipFile a0 = \<lparr>fdata = (case disk e zipFileName of None \<Rightarrow> [] | Some old \<Rightarrow> old), fpos = 0\<rparr>"
  using assms
  by (auto simp: newAnalyzer_def os_OpenFile_def split: sum.splits option.splits if_splits)

lemma store_at_barrier:
  assumes "reachable e s" and "pc s = AfterWait" and "store s = Some a"
  shows "zipFiles a = files_of (map snd (trace s)) \<and> errors a = errors_of (map snd (trace s)) \<and>
         zipWriter a = zip_NewWriter \<and>
         zipFile a =
           \<lparr>fdata = (case disk e zipFileName of None \<Rightarrow> [] | Some old \<Rightarrow> old), fpos = 0\<rparr>"
proof -
  have st: "store_inv e s" using reachable_inv [OF assms(1)] by simp
  show ?thesis
  proof (cases "newAnalyzer e")
    case (Inl err)
    with st assms(3) show ?thesis by (simp add: store_inv_def)
  next
    case (Inr a0)
    with st assms(2,3) have "a = at_barrier a0 (trace s)" by (simp add: store_inv_def)
    then show ?thesis
      using fresh_analyzer [OF Inr]
      by (simp add: at_barrier_def zipFiles_fold_perform errors_fold_perform
          zipWriter_fold_perform zipFile_fold_perform)
  qed
qed

lemma errors_of_mem: "StoreError x \<in> set cs \<Longrightarrow> x \<in> set (errors_of cs)"
  by (induction cs rule: errors_of.induct) auto

lemma store_before_exit:
  assumes "reachable e s" and "newAnalyzer e = Inr a0" and "pc s \<noteq> Exited"
  shows "store s = Some (at_barrier a0 (trace s)) \<and> logged s = []"
  using reachable_inv [OF assms(1)] assms(2,3) by (simp add: store_inv_def)

text \<open>The file that \<^verbatim>\<open>main\<close> leaves when closing the zip writer does not fail.\<close>

lemma main_tail_file:
  assumes "close_last_err e (zipWriter (fst (main_tail e a lg))) = None"
    and "zip_Close_err e = None" and "fpos (zipFile a) = 0"
  shows "fdata (zipFile (fst (main_tail e a lg))) =
           zip_encode e (entries (zipWriter (fst (main_tail e a lg)))) @
           drop (length (zip_encode e (entries (zipWriter (fst (main_tail e a lg))))))
             (fdata (zipFile a))"
proof -
  let ?b = "snd (writeFiles e (snd (addErrors e a)))"
  have f: "zipFile ?b = zipFile a"
    using writeFiles_loop_store [of e "zipFiles (snd (addErrors e a))" "snd (addErrors e a)"]
    by (simp add: writeFiles_def addErrors_sel)
  have w: "zipWriter (fst (main_tail e a lg)) = zipWriter ?b"
    by (rule main_tail_sel)
  have "fdata (zipFile (snd (close e ?b))) =
           zip_encode e (entries (zipWriter ?b)) @
           drop (length (zip_encode e (entries (zipWriter ?b)))) (fdata (zipFile ?b))"
    using assms by (intro close_flushes) (simp_all add: w f)
  then show ?thesis by (simp add: main_tail_fst close_sel f)
qed

text \<open>
  C10: when \<^verbatim>\<open>main\<close> is past \<^verbatim>\<open>wg.Wait()\<close> and at least one error is stored, every
  output record of every probe is already in the store; \<^verbatim>\<open>main\<close> then appends the
  record \<^verbatim>\<open>errors.txt\<close> behind them all; the names of the entries written to the
  archive are an initial segment of the names in that order, so that no entry is
  written after \<^verbatim>\<open>errors.txt\<close>; when closing the zip writer does not fail, the
  produced file begins with the encoding of these entries, and is that encoding when
  the file did not exist before; and when no entry fails, all are written,
  \<^verbatim>\<open>errors.txt\<close> is the last, and the produced file is the encoding of the probes'
  records followed by \<^verbatim>\<open>errors.txt\<close>.
\<close>

theorem errors_txt_written_last:
  assumes "reachable e s" and "pc s = AfterWait" and "store s = Some a" and "errors a \<noteq> []"
  shows "(\<forall>j<length (tasks e). set (files_of (tasks e ! j)) \<subseteq> set (zipFiles a)) \<and>
         main_step e s
           (s\<lparr>pc := Exited, store := Some (fst (main_tail e a (logged s))),
              logged := snd (main_tail e a (logged s))\<rparr>) \<and>
         zipFiles (fst (main_tail e a (logged s))) =
           zipFiles a @
             [\<lparr>name = ''errors.txt'',
               contents =
                 concat (map (\<lambda>er. fmt_plus_v er @
                                [CHR 0x0A, CHR 0x0A] @ ''----------'' @ [CHR 0x0A, CHR 0x0A])
                           (errors a))\<rparr>] \<and>
         (\<exists>k\<le>Suc (length (zipFiles a)).
            map name (entries (zipWriter (fst (main_tail e a (logged s))))) =
              take k (map name (zipFiles a) @ [''errors.txt''])) \<and>
         (close_last_err e (zipWriter (fst (main_tail e a (logged s)))) = None \<and>
          zip_Close_err e = None \<longrightarrow>
            take (length (zip_encode e (entries (zipWriter (fst (main_tail e a (logged s)))))))
              (fdata (zipFile (fst (main_tail e a (logged s))))) =
              zip_encode e (entries (zipWriter (fst (main_tail e a (logged s))))) \<and>
            (disk e zipFileName = None \<longrightarrow>
               fdata (zipFile (fst (main_tail e a (logged s)))) =
                 zip_encode e (entries (zipWriter (fst (main_tail e a (logged s))))))) \<and>
         ((\<forall>i\<le>length (zipFiles a).
             zip_entry_close_err e i = None \<and> zip_writeHeader_err e i = None \<and>
             zip_Write_err e i = None) \<longrightarrow>
            entries (zipWriter (fst (main_tail e a (logged s)))) =
              zipFiles a @
                [\<lparr>name = ''errors.txt'',
                  contents =
                    concat (map (\<lambda>er. fmt_plus_v er @
                                   [CHR 0x0A, CHR 0x0A] @ ''----------'' @ [CHR 0x0A, CHR 0x0A])
                              (errors a))\<rparr>] \<and>
            (zip_Close_err e = None \<and> disk e zipFileName = None \<longrightarrow>
               fdata (zipFile (fst (main_tail e a (logged s)))) =
                 zip_encode e
                   (zipFiles a @
                      [\<lparr>name = ''errors.txt'',
                        contents =
                          concat (map (\<lambda>er. fmt_plus_v er @
                                         [CHR 0x0A, CHR 0x0A] @ ''----------'' @
                                         [CHR 0x0A, CHR 0x0A])
                                    (errors a))\<rparr>])))"
proof -
  let ?R = "\<lparr>name = ''errors.txt'',
              contents =
                concat (map (\<lambda>er. fmt_plus_v er @
                               [CHR 0x0A, CHR 0x0A] @ ''----------'' @ [CHR 0x0A, CHR 0x0A])
                          (errors a))\<rparr>"
  let ?a1 = "snd (addErrors e a)"
  let ?fin = "fst (main_tail e a (logged s))"
  have sb: "zipFiles a = files_of (map snd (trace s))" "zipWriter a = zip_NewWriter"
    "zipFile a = \<lparr>fdata = (case disk e zipFileName of None \<Rightarrow> [] | Some old \<Rightarrow> old), fpos = 0\<rparr>"
    using store_at_barrier [OF assms(1-3)] by simp_all
  have 1: "set (files_of (tasks e ! j)) \<subseteq> set (zipFiles a)" if "j < length (tasks e)" for j
  proof -
    have "calls_of j (trace s) = tasks e ! j"
      using past_barrier [OF assms(1)] assms(2) that by simp
    then have "set (tasks e ! j) \<subseteq> set (map snd (trace s))"
      using calls_of_subset [of j "trace s"] by simp
    then show ?thesis unfolding sb(1) by (rule files_of_mono)
  qed
  have 2: "main_step e s (s\<lparr>pc := Exited, store := Some ?fin,
              logged := snd (main_tail e a (logged s))\<rparr>)"
    using assms(2,3) by (rule main_step.step_tail) simp
  have a1: "zipFiles ?a1 = zipFiles a @ [?R]" "zipWriter ?a1 = zipWriter a"
    using assms(4) by (simp_all add: addErrors_eq storeFile_def delimiter_def)
  have 3: "zipFiles ?fin = zipFiles a @ [?R]"
    by (simp add: main_tail_sel a1)
  have w: "zipWriter ?fin = zipWriter (snd (writeFiles e ?a1))"
    by (rule main_tail_sel)
  obtain k where k: "k \<le> length (zipFiles ?a1)"
    "map name (entries (zipWriter (snd (writeFiles_loop e (zipFiles ?a1) ?a1)))) =
       map name (entries (zipWriter ?a1)) @ take k (map name (zipFiles ?a1))"
    using writeFiles_loop_names [of "zipFiles ?a1" e ?a1] by blast
  have 4: "\<exists>k\<le>Suc (length (zipFiles a)).
            map name (entries (zipWriter ?fin)) =
              take k (map name (zipFiles a) @ [''errors.txt''])"
    using k by (intro exI [of _ k]) (simp add: w writeFiles_def a1 sb(2) zip_NewWriter_def)
  have fl: "fdata (zipFile ?fin) =
           zip_encode e (entries (zipWriter ?fin)) @
           drop (length (zip_encode e (entries (zipWriter ?fin))))
             (case disk e zipFileName of None \<Rightarrow> [] | Some old \<Rightarrow> old)"
    if "close_last_err e (zipWriter ?fin) = None" and "zip_Close_err e = None"
    using main_tail_file [OF that] by (simp add: sb(3))
  have 5: "take (length (zip_encode e (entries (zipWriter ?fin)))) (fdata (zipFile ?fin)) =
              zip_encode e (entries (zipWriter ?fin)) \<and>
            (disk e zipFileName = None \<longrightarrow>
               fdata (zipFile ?fin) = zip_encode e (entries (zipWriter ?fin)))"
    if "close_last_err e (zipWriter ?fin) = None \<and> zip_Close_err e = None"
    using fl that by simp
  have 6: "entries (zipWriter ?fin) = zipFiles a @ [?R] \<and>
            (zip_Close_err e = None \<and> disk e zipFileName = None \<longrightarrow>
               fdata (zipFile ?fin) = zip_encode e (zipFiles a @ [?R]))"
    if ok: "\<forall>i\<le>length (zipFiles a).
             zip_entry_close_err e i = None \<and> zip_writeHeader_err e i = None \<and>
             zip_Write_err e i = None"
  proof -
    have "\<forall>i<length (zipFiles ?a1). entry_ok e (zipWriter ?a1) i"
    proof (intro allI impI)
      fix i assume "i < length (zipFiles ?a1)"
      then have i: "i \<le> length (zipFiles a)" by (simp add: a1)
      then have "i - 1 \<le> length (zipFiles a)" by simp
      with ok i have "zip_entry_close_err e (i - 1) = None"
        "zip_writeHeader_err e i = None" "zip_Write_err e i = None"
        by blast+
      then show "entry_ok e (zipWriter ?a1) i"
        unfolding a1(2) sb(2) by (intro entry_ok_fresh) simp_all
    qed
    then have "writeFiles_loop e (zipFiles ?a1) ?a1 = (None, add_entries (zipFiles ?a1) ?a1)"
      by (rule writeFiles_loop_ok)
    then have wf: "snd (writeFiles e ?a1) = add_entries (zipFiles a @ [?R]) ?a1"
      by (simp add: writeFiles_def a1)
    have en: "entries (zipWriter ?fin) = zipFiles a @ [?R]"
      by (simp add: w wf add_entries_sel a1 sb(2) zip_NewWriter_def)
    have "zip_entry_close_err e (length (zipFiles a)) = None" using ok by blast
    then have cl: "close_last_err e (zipWriter ?fin) = None"
      by (simp add: w wf close_last_err_add_entries a1 sb(2) zip_NewWriter_def)
    have "fdata (zipFile ?fin) = zip_encode e (zipFiles a @ [?R])"
      if "zip_Close_err e = None \<and> disk e zipFileName = None"
      using fl [OF cl] that unfolding en by simp
    with en show ?thesis by blast
  qed
  from 1 2 3 4 5 6 show ?thesis by blast
qed

theorem errors_txt_written_last_witness:
  "\<exists>s a. reachable example_env s \<and> pc s = AfterWait \<and> store s = Some a \<and> errors a \<noteq> [] \<and>
     last (entries (zipWriter (fst (main_tail example_env a (logged s))))) =
       \<lparr>name = ''errors.txt'',
        contents =
          concat (map (\<lambda>er. fmt_plus_v er @
                         [CHR 0x0A, CHR 0x0A] @ ''----------'' @ [CHR 0x0A, CHR 0x0A])
                    (errors a))\<rparr> \<and>
     fdata (zipFile (fst (main_tail example_env a (logged s)))) =
       zip_encode example_env
         (zipFiles a @
            [\<lparr>name = ''errors.txt'',
              contents =
                concat (map (\<lambda>er. fmt_plus_v er @
                               [CHR 0x0A, CHR 0x0A] @ ''----------'' @ [CHR 0x0A, CHR 0x0A])
                          (errors a))\<rparr>])"
proof -
  obtain s where s: "reachable example_env s" "pc s = AfterWait"
    using reachable_AfterWait [OF newAnalyzer_example] by blast
  obtain a where a: "store s = Some a"
    using store_before_exit [OF s(1) newAnalyzer_example] s(2) by simp
  let ?R = "\<lparr>name = ''errors.txt'',
              contents =
                concat (map (\<lambda>er. fmt_plus_v er @
                               [CHR 0x0A, CHR 0x0A] @ ''----------'' @ [CHR 0x0A, CHR 0x0A])
                          (errors a))\<rparr>"
  have "calls_of 18 (trace s) = tasks example_env ! 18"
    using past_barrier [OF s(1)] s(2) by (simp add: length_tasks)
  moreover have "tasks example_env ! 18 =
         [StoreError (Wrapped (Extern ''open /etc/resolv.conf: no such file or directory'')
            ''error reading resolv.conf'' [])]"
    by (simp add: tasks_def addResolvConf_def example_env_def errors_Wrap_def)
  ultimately have "StoreError (Wrapped (Extern ''open /etc/resolv.conf: no such file or directory'')
            ''error reading resolv.conf'' []) \<in> set (map snd (trace s))"
    using calls_of_subset [of 18 "trace s"] by auto
  then have "errors_of (map snd (trace s)) \<noteq> []"
    using errors_of_mem by fastforce
  then have e: "errors a \<noteq> []"
    using store_at_barrier [OF s a] by simp
  have ok: "\<forall>i\<le>length (zipFiles a).
          zip_entry_close_err example_env i = None \<and> zip_writeHeader_err example_env i = None \<and>
          zip_Write_err example_env i = None"
    by (simp add: example_env_def)
  have cd: "zip_Close_err example_env = None \<and> disk example_env zipFileName = None"
    by (simp add: example_env_def)
  from errors_txt_written_last [OF s a e] ok cd
  have "entries (zipWriter (fst (main_tail example_env a (logged s)))) = zipFiles a @ [?R] \<and>
        fdata (zipFile (fst (main_tail example_env a (logged s)))) =
          zip_encode example_env (zipFiles a @ [?R])"
    by blast
  then have "last (entries (zipWriter (fst (main_tail example_env a (logged s))))) = ?R \<and>
        fdata (zipFile (fst (main_tail example_env a (logged s)))) =
          zip_encode example_env (zipFiles a @ [?R])"
    by simp
  with s a e show ?thesis by blast
qed

subsection \<open>The bytes of the archive file\<close>

lemma newAnalyzer_existing_file:
  assumes "open_err e = None" and "disk e zipFileName = Some old"
  shows "newAnalyzer e =
           Inr \<lparr>zipWriter = zip_NewWriter, zipFile = \<lparr>fdata = old, fpos = 0\<rparr>, errors = [],
                zipFiles = []\<rparr>"
  using assms by (simp add: newAnalyzer_def os_OpenFile_def)

lemma produced_file:
  assumes r: "reachable e s" and pc: "pc s = Exited"
    and op: "open_err e = None" and d: "disk e zipFileName = Some old"
    and ec: "\<forall>k. zip_entry_close_err e k = None" and cl: "zip_Close_err e = None"
  shows "\<exists>a. store s = Some a \<and>
           fdata (zipFile a) =
             zip_encode e (entries (zipWriter a)) @
             drop (length (zip_encode e (entries (zipWriter a)))) old"
proof -
  let ?a0 = "\<lparr>zipWriter = zip_NewWriter, zipFile = \<lparr>fdata = old, fpos = 0\<rparr>, errors = [],
              zipFiles = []\<rparr>"
  have n: "newAnalyzer e = Inr ?a0" using op d by (rule newAnalyzer_existing_file)
  let ?b = "at_barrier ?a0 (trace s)"
  have st: "store s = Some (fst (main_tail e ?b []))"
    using reachable_inv [OF r] n pc by (simp add: store_inv_def)
  have f: "zipFile ?b = \<lparr>fdata = old, fpos = 0\<rparr>"
    by (simp add: at_barrier_def zipFile_fold_perform)
  have "close_last_err e (zipWriter (fst (main_tail e ?b []))) = None"
    using ec by (simp add: close_last_err_def)
  then have "fdata (zipFile (fst (main_tail e ?b []))) =
           zip_encode e (entries (zipWriter (fst (main_tail e ?b [])))) @
           drop (length (zip_encode e (entries (zipWriter (fst (main_tail e ?b []))))))
             (fdata (zipFile ?b))"
    using cl by (rule main_tail_file) (simp add: f)
  with st show ?thesis by (simp add: f)
qed

text \<open>
  C2: \<^verbatim>\<open>newAnalyzer\<close> opens the archive file with \<open>O_WRONLY\<close> and \<open>O_CREATE\<close> and
  without \<open>O_TRUNC\<close>. On a file that exists, the analyzer starts with the old bytes in
  place; an archive shorter than the old file (here of two bytes) overwrites the
  beginning and the rest of the old bytes stay in the produced file.
\<close>

theorem newAnalyzer_keeps_old_bytes:
  "newAnalyzer (example_env\<lparr>disk := [zipFileName \<mapsto> ''bytes of the archive of an earlier run'']\<rparr>) =
     Inr \<lparr>zipWriter = zip_NewWriter,
          zipFile = \<lparr>fdata = ''bytes of the archive of an earlier run'', fpos = 0\<rparr>,
          errors = [], zipFiles = []\<rparr> \<and>
   (\<exists>s a. reachable (example_env\<lparr>disk := [zipFileName \<mapsto> ''bytes of the archive of an earlier run''],
                                 zip_encode := (\<lambda>zs. ''PK'')\<rparr>) s \<and>
          pc s = Exited \<and> store s = Some a \<and>
          fdata (zipFile a) = ''PKtes of the archive of an earlier run'')"
proof -
  let ?old = "''bytes of the archive of an earlier run''"
  let ?E = "example_env\<lparr>disk := [zipFileName \<mapsto> ?old], zip_encode := (\<lambda>zs. ''PK'')\<rparr>"
  have 1: "newAnalyzer (example_env\<lparr>disk := [zipFileName \<mapsto> ?old]\<rparr>) =
     Inr \<lparr>zipWriter = zip_NewWriter, zipFile = \<lparr>fdata = ?old, fpos = 0\<rparr>,
          errors = [], zipFiles = []\<rparr>"
    by (rule newAnalyzer_existing_file) (simp_all add: example_env_def)
  have n: "newAnalyzer ?E =
     Inr \<lparr>zipWriter = zip_NewWriter, zipFile = \<lparr>fdata = ?old, fpos = 0\<rparr>,
          errors = [], zipFiles = []\<rparr>"
    by (rule newAnalyzer_existing_file) (simp_all add: example_env_def)
  obtain s where s: "reachable ?E s" "pc s = Exited"
    using reachable_Exited [OF n] by blast
  have "\<exists>a. store s = Some a \<and>
           fdata (zipFile a) =
             zip_encode ?E (entries (zipWriter a)) @
             drop (length (zip_encode ?E (entries (zipWriter a)))) ?old"
    using s by (rule produced_file) (simp_all add: example_env_def)
  then obtain a where "store s = Some a" "fdata (zipFile a) = ''PKtes of the archive of an earlier run''"
    by auto
  with s 1 show ?thesis by blast
qed

end
